theory Spec2Isabelle
  imports Main "HOL-Library.AList"
begin

section \<open>Frequency tables\<close>

text \<open>
  A Python \<open>dict\<close> is an association list in insertion order: \<open>map_of\<close> reads a key,
  \<open>AList.update\<close> overwrites the entry of a present key in place and appends an absent
  one, as \<open>d[k] = v\<close> does. The attribute \<open>chain_frequency\<close> of an \<open>Ngram\<close>
  maps a context to the dictionary of its next-token counts. Counts are Python integers.
  \<open>merge_grams\<close> reads and writes no other attribute of an \<open>Ngram\<close>.
\<close>

type_synonym ('k, 'v) dict = "('k \<times> 'v) list"

type_synonym ('c, 'x) table = "('c, ('x, int) dict) dict"

record ('c, 'x) Ngram =
  chain_frequency :: "('c, 'x) table"

text \<open>
  The keys of a dictionary are pairwise distinct; a frequency table is a dictionary of
  dictionaries.
\<close>

definition wf_dict :: "('k, 'v) dict \<Rightarrow> bool" where
  "wf_dict d = distinct (map fst d)"

definition wf_table :: "('c, 'x) table \<Rightarrow> bool" where
  "wf_table t = (wf_dict t \<and> list_all (\<lambda>kv. wf_dict (snd kv)) t)"

text \<open>
  The contents of a table, which is what equality of two Python dictionaries compares:
  the contexts it holds and, for each, the next-ids and their counts.
\<close>

definition content :: "('c, 'x) table \<Rightarrow> 'c \<Rightarrow> ('x \<Rightarrow> int option) option" where
  "content t = (\<lambda>k. map_option map_of (map_of t k))"

definition has_context :: "('c, 'x) table \<Rightarrow> 'c \<Rightarrow> bool" where
  "has_context t k = (map_of t k \<noteq> None)"

definition has_entry :: "('c, 'x) table \<Rightarrow> 'c \<Rightarrow> 'x \<Rightarrow> bool" where
  "has_entry t k x = (case map_of t k of None \<Rightarrow> False | Some d \<Rightarrow> map_of d x \<noteq> None)"

definition get_count :: "('c, 'x) table \<Rightarrow> 'c \<Rightarrow> 'x \<Rightarrow> int" where
  "get_count t k x =
     (case map_of t k of None \<Rightarrow> 0
      | Some d \<Rightarrow> (case map_of d x of None \<Rightarrow> 0 | Some c \<Rightarrow> c))"

subsection \<open>merge_grams\<close>

text \<open>
  The inner loop of \<open>merge_grams\<close>, over \<open>value.items()\<close>, on the dictionary
  \<open>gram1.chain_frequency[key]\<close>.
\<close>

fun merge_sub :: "('x, int) dict \<Rightarrow> ('x, int) dict \<Rightarrow> ('x, int) dict" where
  "merge_sub d [] = d"
| "merge_sub d ((sub_key, sub_value) # items) =
     merge_sub (case map_of d sub_key of
                  None \<Rightarrow> AList.update sub_key sub_value d
                | Some c \<Rightarrow> AList.update sub_key (c + sub_value) d) items"

text \<open>The outer loop, over \<open>gram2.chain_frequency.items()\<close>.\<close>

fun merge_items :: "('c, 'x) table \<Rightarrow> ('c, 'x) table \<Rightarrow> ('c, 'x) table" where
  "merge_items cf [] = cf"
| "merge_items cf ((key, val) # items) =
     merge_items (case map_of cf key of
                    None \<Rightarrow> AList.update key val cf
                  | Some d \<Rightarrow> AList.update key (merge_sub d val) cf) items"

text \<open>
  \<open>merge_grams\<close> changes \<open>gram1\<close> in place and returns it. This definition gives
  the value that one call leaves in \<open>gram1\<close>, from the values that the two operands
  have when it is called; in \<open>main\<close> the second operand is freshly loaded from its file
  and used once. What several calls on the same objects compute is modelled on a store
  below.
\<close>

definition merge_grams :: "('c, 'x) Ngram \<Rightarrow> ('c, 'x) Ngram \<Rightarrow> ('c, 'x) Ngram" where
  "merge_grams gram1 gram2 =
     gram1\<lparr>chain_frequency := merge_items (chain_frequency gram1) (chain_frequency gram2)\<rparr>"

text \<open>What the claims call content equality of two models.\<close>

definition content_eq :: "('c, 'x) Ngram \<Rightarrow> ('c, 'x) Ngram \<Rightarrow> bool" where
  "content_eq g h = (content (chain_frequency g) = content (chain_frequency h))"

definition wf_gram :: "('c, 'x) Ngram \<Rightarrow> bool" where
  "wf_gram g = wf_table (chain_frequency g)"

subsection \<open>Errors\<close>

text \<open>
  The exceptions that the modelled code can raise. \<open>Raised\<close> stands for any exception
  that comes out of the modules \<open>vocabulary\<close> and \<open>ngram\<close>.
\<close>

datatype error =
    IndexError
  | UnboundLocalError string
  | TypeError
  | FileNotFoundError
  | Raised string

subsection \<open>A new model\<close>

text \<open>
  Modelled from the spec: the constructor \<open>Ngram()\<close> of the module \<open>ngram\<close>, which
  is not among the sources. Every count of a table is the number of times the transition
  was seen in the sequences folded into it so far, so the table of a new model holds no
  context.
\<close>

definition Ngram_new :: "('c, 'x) Ngram" where
  "Ngram_new = \<lparr>chain_frequency = []\<rparr>"

text \<open>
  The fold that \<open>main\<close> performs over the partial models, each loaded from its file
  into an object of its own: \<open>gram_final = ngram.Ngram()\<close>, then
  \<open>gram_final = merge_grams(gram_final, sub_gram)\<close> for each of them from left to right.
\<close>

definition linear_fold :: "('c, 'x) Ngram list \<Rightarrow> ('c, 'x) Ngram" where
  "linear_fold models = foldl merge_grams Ngram_new models"

subsection \<open>Objects and references\<close>

text \<open>
  \<open>merge_grams\<close> changes \<open>gram1\<close> in place and returns that object, and under a
  context that \<open>gram1\<close> lacks it stores the inner dictionary of \<open>gram2\<close> itself, not
  a copy. What several merges over the same objects compute is therefore stated on a
  store: \<open>tables h g\<close> is the \<open>chain_frequency\<close> of the \<open>Ngram\<close> object at address
  \<open>g\<close>, which maps a context to the address of its inner dictionary; \<open>dicts h a\<close> is
  the inner dictionary at address \<open>a\<close>; no object has an address from \<open>next_obj h\<close>
  on. \<open>contents\<close> reads the table of an object out of the store.
\<close>

record ('c, 'x) store =
  tables :: "nat \<Rightarrow> ('c, nat) dict"
  dicts :: "nat \<Rightarrow> ('x, int) dict"
  next_obj :: nat

definition contents :: "('c, 'x) store \<Rightarrow> nat \<Rightarrow> ('c, 'x) table" where
  "contents h g = map (\<lambda>ka. (fst ka, dicts h (snd ka))) (tables h g)"

text \<open>
  The loops of \<open>merge_grams\<close> on the store. A loop over \<open>d.items()\<close> sees the items
  that \<open>d\<close> has when the loop begins: the outer dictionary of \<open>gram1\<close> takes a new
  key only when \<open>gram2\<close> is another object, and an inner dictionary is written while
  it is walked only when it is \<open>gram1\<close>'s own, and then at the key just read. The inner
  loop is \<open>merge_sub\<close> on the two dictionaries as they are when it begins.
\<close>

fun merge_items_store :: "nat \<Rightarrow> ('c, nat) dict \<Rightarrow> ('c, 'x) store \<Rightarrow> ('c, 'x) store" where
  "merge_items_store gram1 [] h = h"
| "merge_items_store gram1 ((key, val) # items) h =
     merge_items_store gram1 items
       (case map_of (tables h gram1) key of
          None \<Rightarrow> h\<lparr>tables := (tables h)(gram1 := AList.update key val (tables h gram1))\<rparr>
        | Some a \<Rightarrow> h\<lparr>dicts := (dicts h)(a := merge_sub (dicts h a) (dicts h val))\<rparr>)"

definition merge_grams_store :: "nat \<Rightarrow> nat \<Rightarrow> ('c, 'x) store \<Rightarrow> nat \<times> ('c, 'x) store" where
  "merge_grams_store gram1 gram2 h = (gram1, merge_items_store gram1 (tables h gram2) h)"

text \<open>
  Objects are separate when they are different objects with tables of distinct keys, each
  context of each has an inner dictionary of its own, and no two of them share one.
\<close>

definition addrs :: "('c, 'x) store \<Rightarrow> nat \<Rightarrow> nat set" where
  "addrs h g = snd ` set (tables h g)"

definition owns :: "('c, 'x) store \<Rightarrow> nat \<Rightarrow> bool" where
  "owns h g = distinct (map snd (tables h g))"

definition separate :: "('c, 'x) store \<Rightarrow> nat list \<Rightarrow> bool" where
  "separate h gs =
     (distinct gs
      \<and> (\<forall>g\<in>set gs. owns h g \<and> wf_table (contents h g))
      \<and> (\<forall>g\<in>set gs. \<forall>g'\<in>set gs. g \<noteq> g' \<longrightarrow> addrs h g \<inter> addrs h g' = {}))"

text \<open>
  The three ways to merge three models that the claims compare, each run on the store
  \<open>h\<close>: \<open>merge(merge(A, B), C)\<close> and \<open>merge(A, merge(B, C))\<close>; the third,
  \<open>merge(merge(B, A), C)\<close>, is the first with \<open>A\<close> and \<open>B\<close> exchanged. Each gives
  the contents of the object that the outer call returns.
\<close>

definition merge_left :: "nat \<Rightarrow> nat \<Rightarrow> nat \<Rightarrow> ('c, 'x) store \<Rightarrow> ('c, 'x) table" where
  "merge_left A B C h =
     (let (ab, h1) = merge_grams_store A B h;
          (r, h2) = merge_grams_store ab C h1
      in contents h2 r)"

definition merge_right :: "nat \<Rightarrow> nat \<Rightarrow> nat \<Rightarrow> ('c, 'x) store \<Rightarrow> ('c, 'x) table" where
  "merge_right A B C h =
     (let (bc, h1) = merge_grams_store B C h;
          (r, h2) = merge_grams_store A bc h1
      in contents h2 r)"

subsection \<open>merge_models_incrementally\<close>

text \<open>
  One pass of the \<open>for i in range(0, len(models_to_merge), 2)\<close> loop over a list of
  references: adjacent models are merged in pairs, a last model without a partner is
  carried over.
\<close>

fun merge_round :: "nat list \<Rightarrow> ('c, 'x) store \<Rightarrow> nat list \<times> ('c, 'x) store" where
  "merge_round (model1 # model2 # rest) h =
     (let (merged_model, h1) = merge_grams_store model1 model2 h;
          (new_models, h2) = merge_round rest h1
      in (merged_model # new_models, h2))"
| "merge_round [model1] h = ([model1], h)"
| "merge_round [] h = ([], h)"

text \<open>
  The \<open>while len(models_to_merge) > 1\<close> loop and the final \<open>models_to_merge[0]\<close>,
  which raises \<open>IndexError\<close> on the empty list.
\<close>

function merge_models_incrementally ::
  "nat list \<Rightarrow> ('c, 'x) store \<Rightarrow> error + nat \<times> ('c, 'x) store" where
  "merge_models_incrementally models_to_merge h =
     (if length models_to_merge > 1
      then (case merge_round models_to_merge h of
              (new_models, h1) \<Rightarrow> merge_models_incrementally new_models h1)
      else (case models_to_merge of [] \<Rightarrow> Inl IndexError | m # _ \<Rightarrow> Inr (m, h)))"
  by pat_completeness auto
termination
proof (relation "measure (\<lambda>p. length (fst p))")
  show "wf (measure (\<lambda>p. length (fst p)))" by simp
next
  fix models_to_merge :: "nat list" and h :: "('c, 'x) store" and new_models h1
  assume long: "1 < length models_to_merge"
    and p: "(new_models, h1) = merge_round models_to_merge h"
  have le: "length (fst (merge_round ms s)) \<le> length ms" for ms and s :: "('c, 'x) store"
  proof (induction ms s rule: merge_round.induct)
    case (1 model1 model2 rest s')
    from "1.IH" [OF prod.collapse prod.collapse] show ?case by (simp add: split_beta)
  qed simp_all
  have "1 < length ms \<Longrightarrow> length (fst (merge_round ms s)) < length ms"
    for ms and s :: "('c, 'x) store"
  proof (cases "(ms, s)" rule: merge_round.cases)
    case (1 model1 model2 rest s')
    then show ?thesis
      using le [of rest "snd (merge_grams_store model1 model2 s')"] by (simp add: split_beta)
  qed simp_all
  from this [OF long, of h] p
  show "((new_models, h1), (models_to_merge, h)) \<in> measure (\<lambda>p. length (fst p))"
    by (metis fst_conv in_measure)
qed

declare merge_models_incrementally.simps [simp del]

text \<open>
  The linear fold on the store. Modelled from the spec: \<open>Ngram()\<close> gives a new object
  with an empty table, at the first free address.
\<close>

definition Ngram_store :: "('c, 'x) store \<Rightarrow> nat \<times> ('c, 'x) store" where
  "Ngram_store h =
     (next_obj h, h\<lparr>tables := (tables h)(next_obj h := []), next_obj := Suc (next_obj h)\<rparr>)"

fun fold_merge :: "nat \<Rightarrow> nat list \<Rightarrow> ('c, 'x) store \<Rightarrow> nat \<times> ('c, 'x) store" where
  "fold_merge gram_final [] h = (gram_final, h)"
| "fold_merge gram_final (sub_gram # rest) h =
     (case merge_grams_store gram_final sub_gram h of
        (gram_final1, h1) \<Rightarrow> fold_merge gram_final1 rest h1)"

definition linear_fold_store :: "nat list \<Rightarrow> ('c, 'x) store \<Rightarrow> nat \<times> ('c, 'x) store" where
  "linear_fold_store models h =
     (case Ngram_store h of (gram_final, h1) \<Rightarrow> fold_merge gram_final models h1)"

text \<open>The contents that the two reductions return.\<close>

definition tree_contents :: "nat list \<Rightarrow> ('c, 'x) store \<Rightarrow> error + ('c, 'x) table" where
  "tree_contents models h =
     (case merge_models_incrementally models h of
        Inl e \<Rightarrow> Inl e
      | Inr (m, h1) \<Rightarrow> Inr (contents h1 m))"

definition fold_contents :: "nat list \<Rightarrow> ('c, 'x) store \<Rightarrow> ('c, 'x) table" where
  "fold_contents models h = (case linear_fold_store models h of (m, h1) \<Rightarrow> contents h1 m)"

subsection \<open>Sums of contents\<close>

text \<open>
  The sum of two count dictionaries and of two tables, as maps, and the sum of the
  contents of a list of objects of a store. They state what the merges compute.
\<close>

definition add_sub :: "('x \<Rightarrow> int option) \<Rightarrow> ('x \<Rightarrow> int option) \<Rightarrow> 'x \<Rightarrow> int option" where
  "add_sub f g = (\<lambda>x. case g x of None \<Rightarrow> f x
                      | Some q \<Rightarrow> (case f x of None \<Rightarrow> Some q | Some p \<Rightarrow> Some (p + q)))"

definition add_tab ::
  "('c \<Rightarrow> ('x \<Rightarrow> int option) option) \<Rightarrow> ('c \<Rightarrow> ('x \<Rightarrow> int option) option)
     \<Rightarrow> 'c \<Rightarrow> ('x \<Rightarrow> int option) option" where
  "add_tab F G = (\<lambda>k. case G k of None \<Rightarrow> F k
                      | Some g \<Rightarrow> (case F k of None \<Rightarrow> Some g | Some f \<Rightarrow> Some (add_sub f g)))"

definition content_sum :: "('c, 'x) store \<Rightarrow> nat list \<Rightarrow> 'c \<Rightarrow> ('x \<Rightarrow> int option) option" where
  "content_sum h gs = foldr (\<lambda>g F. add_tab (content (contents h g)) F) gs (\<lambda>k. None)"

section \<open>Preprocessing\<close>

text \<open>
  A Python string is a list of Unicode code points. \<open>isspace\<close> holds for the
  code points that \<open>str.isspace\<close>, \<open>str.strip()\<close> and \<open>str.split()\<close> treat as
  whitespace.
\<close>

type_synonym pystr = "nat list"

definition isspace :: "nat \<Rightarrow> bool" where
  "isspace c = (c \<in> {9, 10, 11, 12, 13, 28, 29, 30, 31, 32, 133, 160, 5760,
                      8232, 8233, 8239, 8287, 12288} \<or> (8192 \<le> c \<and> c \<le> 8202))"

definition lstrip :: "pystr \<Rightarrow> pystr" where
  "lstrip text = dropWhile isspace text"

definition strip :: "pystr \<Rightarrow> pystr" where
  "strip text = rev (lstrip (rev (lstrip text)))"

text \<open>\<open>text.replace(old, new)\<close> for one-character strings \<open>old\<close> and \<open>new\<close>.\<close>

definition replace :: "nat \<Rightarrow> nat \<Rightarrow> pystr \<Rightarrow> pystr" where
  "replace old new text = map (\<lambda>c. if c = old then new else c) text"

text \<open>
  \<open>text.split()\<close>: the maximal runs of characters that are not whitespace. The first
  argument is the run read so far.
\<close>

fun split_from :: "pystr \<Rightarrow> pystr \<Rightarrow> pystr list" where
  "split_from w [] = (if w = [] then [] else [w])"
| "split_from w (c # cs) =
     (if isspace c then (if w = [] then split_from [] cs else w # split_from [] cs)
      else split_from (w @ [c]) cs)"

definition split :: "pystr \<Rightarrow> pystr list" where
  "split text = split_from [] text"

fun join :: "pystr \<Rightarrow> pystr list \<Rightarrow> pystr" where
  "join sep [] = []"
| "join sep [t] = t"
| "join sep (t # ts) = t @ sep @ join sep ts"

text \<open>
  \<open>preprocessing\<close>: the newline is code point 10, the space 32. The third statement
  of the source builds the joined string and drops it.
\<close>

definition preprocessing :: "pystr \<Rightarrow> pystr" where
  "preprocessing text0 =
     (let text1 = strip text0;
          text2 = replace 10 32 text1;
          dropped = join [32] (split text2)
      in text2)"

section \<open>The training run\<close>

text \<open>
  The modules \<open>vocabulary\<close> and \<open>ngram\<close> are not among the sources, so what \<open>main\<close>
  calls in them is a parameter of the model: the empty \<open>Vocabulary()\<close>, its
  \<open>update\<close> and \<open>chain_to_ids\<close>, and \<open>Ngram(n).train\<close>, which gives the table of
  the trained model. A saved file holds the value that was saved, and loading gives it back.
\<close>

type_synonym model = "(nat list, nat) table"

record 'v modules =
  Vocabulary_new :: "'v"
  Vocabulary_update :: "'v \<Rightarrow> pystr \<Rightarrow> 'v"
  Vocabulary_chain_to_ids :: "'v \<Rightarrow> pystr \<Rightarrow> error + nat list"
  Ngram_train :: "int \<Rightarrow> nat list \<Rightarrow> error + model"

text \<open>The entries of \<open>config.json\<close> that decide the control flow of \<open>main\<close>.\<close>

record config =
  dask_distributed :: bool
  parallelize :: bool
  ngram_range_min :: int
  ngram_range_max :: int

text \<open>
  The state of a run: the local names \<open>vocab\<close>, \<open>data\<close> and \<open>distributed_vocab\<close>
  of \<open>main\<close> (\<open>None\<close> when the name is unbound, as after \<open>del\<close>), and the files:
  \<open>vocab_file\<close> is \<open>data/vocabs/<name>.vocab\<close>; \<open>temp\<close> holds the files
  \<open>data/temp/<id>.tmp\<close> by their \<open>id\<close>, in the order in which \<open>glob\<close> lists them;
  \<open>models n\<close> is the file \<open>model_<n>.ngram\<close> of the directory
  \<open>data/ngram/<name>/<n>\<close>, the only file that the program writes there.
  \<open>uuid4\<close> is the sequence of identifiers that \<open>uuid.uuid4()\<close> draws, \<open>draws\<close> the
  number of them drawn so far.
\<close>

record 'v state =
  vocab :: "'v option"
  data :: "pystr list option"
  distributed_vocab :: "'v option"
  vocab_file :: "'v option"
  temp :: "(string, model) dict"
  models :: "int \<Rightarrow> model option"
  uuid4 :: "nat \<Rightarrow> string"
  draws :: nat

text \<open>
  A step gives the exception it raised, if any, and the state it left. \<open>and_then\<close>
  runs the next step unless an exception is on its way out of \<open>main\<close>.
\<close>

type_synonym 'v outcome = "error option \<times> 'v state"

definition and_then :: "'v outcome \<Rightarrow> ('v state \<Rightarrow> 'v outcome) \<Rightarrow> 'v outcome" where
  "and_then r f = (case r of (Some e, st) \<Rightarrow> (Some e, st) | (None, st) \<Rightarrow> f st)"

subsection \<open>train_ngram\<close>

text \<open>
  The task of one document: encode the text, train a model of order \<open>n\<close> on the ids and
  save it under a new identifier. An exception of \<open>chain_to_ids\<close> or \<open>train\<close>
  leaves the function; the constructor \<open>Ngram(n)\<close> and \<open>save\<close> are taken not to
  raise.
\<close>

definition train_ngram :: "'v modules \<Rightarrow> int \<Rightarrow> pystr \<Rightarrow> 'v \<Rightarrow> 'v state \<Rightarrow> 'v outcome" where
  "train_ngram M n text v st =
     (case Vocabulary_chain_to_ids M v text of
        Inl e \<Rightarrow> (Some e, st)
      | Inr ids \<Rightarrow>
          (case Ngram_train M n ids of
             Inl e \<Rightarrow> (Some e, st)
           | Inr gram \<Rightarrow>
               (None, st\<lparr>temp := AList.update (uuid4 st (draws st)) gram (temp st),
                         draws := Suc (draws st)\<rparr>)))"

text \<open>
  A call of \<open>train_ngram\<close> with a list of positional arguments. The function has three
  parameters, \<open>n\<close>, \<open>text\<close> and \<open>vocab\<close>; a call with another number of arguments
  raises \<open>TypeError\<close> before the body runs. The source passes an integer, a string and
  a vocabulary when it passes three arguments.
\<close>

datatype 'v pyval = PInt int | PStr pystr | PVocab 'v

fun call_train_ngram :: "'v modules \<Rightarrow> 'v pyval list \<Rightarrow> 'v state \<Rightarrow> 'v outcome" where
  "call_train_ngram M [PInt n, PStr text, PVocab v] st = train_ngram M n text v st"
| "call_train_ngram M args st = (Some TypeError, st)"

subsection \<open>The three ways to run the tasks of an order\<close>

text \<open>
  On the local machine: \<open>[train_ngram(n, str(text), vocab) for text in tqdm(data)]\<close>, or
  the same calls handed to \<open>joblib.Parallel\<close>. The name \<open>vocab\<close> is read for each
  document. The first exception of a task leaves the comprehension, and \<open>Parallel\<close>
  raises it again in \<open>main\<close>. The tasks share nothing but the directory in which each
  writes one file, so the model runs them in the order of the documents.
\<close>

fun run_tasks :: "'v modules \<Rightarrow> int \<Rightarrow> pystr list \<Rightarrow> 'v state \<Rightarrow> 'v outcome" where
  "run_tasks M n [] st = (None, st)"
| "run_tasks M n (text # rest) st =
     (case vocab st of
        None \<Rightarrow> (Some (UnboundLocalError ''vocab''), st)
      | Some v \<Rightarrow>
          and_then (call_train_ngram M [PInt n, PStr text, PVocab v] st) (run_tasks M n rest))"

text \<open>
  On the Dask cluster: \<open>results = [delayed(train_ngram)(text, distributed_vocab) for text
  in data]\<close>, \<open>client.compute(results)\<close>, \<open>progress(futures)\<close>. Each call runs on a
  worker; an exception that it raises stays in its future, and \<open>main\<close> never asks a future
  for its result. \<open>run_futures\<close> gives the outcome that each future holds. The
  connection to the scheduler is taken to succeed, and the workers to write to the same
  staging directory.
\<close>

fun run_futures ::
  "'v modules \<Rightarrow> 'v pyval list list \<Rightarrow> 'v state \<Rightarrow> error option list \<times> 'v state" where
  "run_futures M [] st = ([], st)"
| "run_futures M (args # rest) st =
     (let (r, st1) = call_train_ngram M args st;
          (rs, st2) = run_futures M rest st1
      in (r # rs, st2))"

definition dask_results :: "'v state \<Rightarrow> pystr list \<Rightarrow> error + 'v pyval list list" where
  "dask_results st ds =
     (if ds = [] then Inr []
      else (case distributed_vocab st of
              None \<Rightarrow> Inl (UnboundLocalError ''distributed_vocab'')
            | Some dv \<Rightarrow> Inr (map (\<lambda>text. [PStr text, PVocab dv]) ds)))"

definition dispatch :: "'v modules \<Rightarrow> config \<Rightarrow> int \<Rightarrow> 'v state \<Rightarrow> 'v outcome" where
  "dispatch M cfg n st =
     (if \<not> dask_distributed cfg then
        (if parallelize cfg then
           (case data st of
              None \<Rightarrow> (Some (UnboundLocalError ''data''), st)
            | Some ds \<Rightarrow> run_tasks M n ds st)
         else
           (case data st of
              None \<Rightarrow> (Some (UnboundLocalError ''data''), st)
            | Some ds \<Rightarrow> run_tasks M n ds st))
      else
        (case data st of
           None \<Rightarrow> (Some (UnboundLocalError ''data''), st)
         | Some ds \<Rightarrow>
             (case dask_results st ds of
                Inl e \<Rightarrow> (Some e, st)
              | Inr results \<Rightarrow> (None, snd (run_futures M results st)))))"

subsection \<open>One order\<close>

definition del_vocab :: "'v state \<Rightarrow> 'v outcome" where
  "del_vocab st =
     (case vocab st of
        None \<Rightarrow> (Some (UnboundLocalError ''vocab''), st)
      | Some v \<Rightarrow> (None, st\<lparr>vocab := None\<rparr>))"

definition del_data :: "'v state \<Rightarrow> 'v outcome" where
  "del_data st =
     (case data st of
        None \<Rightarrow> (Some (UnboundLocalError ''data''), st)
      | Some ds \<Rightarrow> (None, st\<lparr>data := None\<rparr>))"

text \<open>
  The loop \<open>for model_path in tqdm(models_to_merge)\<close>: load the file, merge it into
  \<open>gram_final\<close>, remove the file.
\<close>

fun merge_loop ::
  "(nat list, nat) Ngram \<Rightarrow> string list \<Rightarrow> 'v state
     \<Rightarrow> error option \<times> (nat list, nat) Ngram \<times> 'v state" where
  "merge_loop gram_final [] st = (None, gram_final, st)"
| "merge_loop gram_final (model_path # rest) st =
     (case map_of (temp st) model_path of
        None \<Rightarrow> (Some FileNotFoundError, gram_final, st)
      | Some cf \<Rightarrow>
          merge_loop (merge_grams gram_final \<lparr>chain_frequency = cf\<rparr>) rest
            (st\<lparr>temp := AList.delete model_path (temp st)\<rparr>))"

text \<open>
  The second half of the loop body of \<open>main\<close>, from \<open>output_path\<close> on: the old
  \<open>.ngram\<close> files of the order are removed, the staged files are merged, the result is
  saved and the staging directory is emptied.
\<close>

definition merge_and_save :: "int \<Rightarrow> 'v state \<Rightarrow> 'v outcome" where
  "merge_and_save n st =
     (let st1 = st\<lparr>models := (models st)(n := None)\<rparr>;
          models_to_merge = map fst (temp st1)
      in (case merge_loop Ngram_new models_to_merge st1 of
            (Some e, gram_final, st2) \<Rightarrow> (Some e, st2)
          | (None, gram_final, st2) \<Rightarrow>
              (None, st2\<lparr>models := (models st2)(n \<mapsto> chain_frequency gram_final),
                         temp := []\<rparr>)))"

text \<open>The body of \<open>for n in range(ngram_min, ngram_max+1)\<close>.\<close>

definition run_order :: "'v modules \<Rightarrow> config \<Rightarrow> int \<Rightarrow> 'v state \<Rightarrow> 'v outcome" where
  "run_order M cfg n st =
     and_then (dispatch M cfg n (st\<lparr>temp := []\<rparr>))
       (\<lambda>st. and_then (del_vocab st)
          (\<lambda>st. and_then (del_data st) (merge_and_save n)))"

fun run_orders :: "'v modules \<Rightarrow> config \<Rightarrow> int list \<Rightarrow> 'v state \<Rightarrow> 'v outcome" where
  "run_orders M cfg [] st = (None, st)"
| "run_orders M cfg (n # ns) st = and_then (run_order M cfg n st) (run_orders M cfg ns)"

subsection \<open>main\<close>

definition load_or_create_vocabulary :: "'v modules \<Rightarrow> pystr list \<Rightarrow> 'v state \<Rightarrow> 'v \<times> 'v state" where
  "load_or_create_vocabulary M ds st =
     (case vocab_file st of
        Some v \<Rightarrow> (v, st)
      | None \<Rightarrow>
          (let v = foldl (Vocabulary_update M) (Vocabulary_new M) ds
           in (v, st\<lparr>vocab_file := Some v\<rparr>)))"

text \<open>
  \<open>main\<close> up to the loop over the orders; \<open>docs\<close> is what \<open>load_data\<close> returned.
\<close>

definition startup :: "'v modules \<Rightarrow> config \<Rightarrow> pystr list \<Rightarrow> 'v state \<Rightarrow> 'v state" where
  "startup M cfg docs st =
     (let ds = map preprocessing docs;
          (v, st1) = load_or_create_vocabulary M ds st
      in st1\<lparr>data := Some ds, vocab := Some v,
              distributed_vocab := (if dask_distributed cfg then Some v else None)\<rparr>)"

definition main :: "'v modules \<Rightarrow> config \<Rightarrow> pystr list \<Rightarrow> 'v state \<Rightarrow> 'v outcome" where
  "main M cfg docs st =
     run_orders M cfg [ngram_range_min cfg..ngram_range_max cfg] (startup M cfg docs st)"

subsection \<open>The missing modules, from the specification\<close>

text \<open>
  Modelled from the spec: the class \<open>Vocabulary\<close> of the module \<open>vocabulary\<close>, which
  is not among the sources. A vocabulary maps each token to its id; ids are dense and are
  given in the order of first occurrence, starting at 0; the tokens of a text are its
  whitespace-separated words. The specification leaves open what \<open>chain_to_ids\<close> does
  with a token that the vocabulary does not hold; here it raises.
\<close>

type_synonym vocabulary = "(pystr, nat) dict"

definition spec_update :: "vocabulary \<Rightarrow> pystr \<Rightarrow> vocabulary" where
  "spec_update v text =
     foldl (\<lambda>v tok. if map_of v tok = None then v @ [(tok, length v)] else v) v (split text)"

fun ids_of :: "vocabulary \<Rightarrow> pystr list \<Rightarrow> error + nat list" where
  "ids_of v [] = Inr []"
| "ids_of v (tok # toks) =
     (case map_of v tok of
        None \<Rightarrow> Inl (Raised ''KeyError'')
      | Some i \<Rightarrow> (case ids_of v toks of Inl e \<Rightarrow> Inl e | Inr ids \<Rightarrow> Inr (i # ids)))"

definition spec_chain_to_ids :: "vocabulary \<Rightarrow> pystr \<Rightarrow> error + nat list" where
  "spec_chain_to_ids v text = ids_of v (split text)"

text \<open>
  Modelled from the spec: the method \<open>train\<close> of the class \<open>Ngram\<close> of the module
  \<open>ngram\<close>, which is not among the sources. For every position \<open>i \<ge> n - 1\<close> of
  the sequence, the count of \<open>sequence[i]\<close> under the context
  \<open>sequence[i-n+1 : i]\<close> goes up by one; a sequence shorter than \<open>n\<close> changes nothing.
  The function walks the windows of length \<open>n\<close> from the left; for \<open>n \<le> 0\<close> the
  slice is empty at every position, as it is for \<open>n = 1\<close>.
\<close>

definition increment :: "nat list \<Rightarrow> nat \<Rightarrow> model \<Rightarrow> model" where
  "increment ctx nxt t =
     (case map_of t ctx of
        None \<Rightarrow> AList.update ctx [(nxt, 1)] t
      | Some d \<Rightarrow>
          AList.update ctx
            (case map_of d nxt of None \<Rightarrow> AList.update nxt 1 d
             | Some c \<Rightarrow> AList.update nxt (c + 1) d) t)"

fun train_from :: "nat \<Rightarrow> nat list \<Rightarrow> model \<Rightarrow> model" where
  "train_from n [] t = t"
| "train_from n (x # xs) t =
     (if length (x # xs) < n then t
      else train_from n xs (increment (take (n - 1) (x # xs)) ((x # xs) ! (n - 1)) t))"

definition spec_train :: "int \<Rightarrow> nat list \<Rightarrow> error + model" where
  "spec_train n ids = Inr (train_from (nat n) ids [])"

definition spec_modules :: "vocabulary modules" where
  "spec_modules =
     \<lparr>Vocabulary_new = [], Vocabulary_update = spec_update,
      Vocabulary_chain_to_ids = spec_chain_to_ids, Ngram_train = spec_train\<rparr>"

subsection \<open>What a step leaves alone\<close>

text \<open>
  Two states agree on the local names and on every file outside the staging directory.
\<close>

definition same_but_temp :: "'v state \<Rightarrow> 'v state \<Rightarrow> bool" where
  "same_but_temp st st' =
     (vocab st' = vocab st \<and> data st' = data st
      \<and> distributed_vocab st' = distributed_vocab st
      \<and> vocab_file st' = vocab_file st \<and> models st' = models st \<and> uuid4 st' = uuid4 st)"

subsection \<open>Inputs for the evaluations\<close>

text \<open>
  A machine on which nothing has run yet, the two documents of the specification's
  example, and configurations for a run on the local machine and on a Dask cluster.
\<close>

definition fresh_state :: "vocabulary state" where
  "fresh_state =
     \<lparr>vocab = None, data = None, distributed_vocab = None, vocab_file = None,
      temp = [], models = (\<lambda>n. None),
      uuid4 = (\<lambda>i. replicate (Suc i) CHR ''u''), draws = 0\<rparr>"

definition example_docs :: "pystr list" where
  "example_docs = [map of_char ''the cat sat'', map of_char ''the dog sat'']"

definition local_config :: "int \<Rightarrow> int \<Rightarrow> config" where
  "local_config lo hi =
     \<lparr>dask_distributed = False, parallelize = False, ngram_range_min = lo, ngram_range_max = hi\<rparr>"

definition dask_config :: "int \<Rightarrow> int \<Rightarrow> config" where
  "dask_config lo hi =
     \<lparr>dask_distributed = True, parallelize = False, ngram_range_min = lo, ngram_range_max = hi\<rparr>"

text \<open>
  A store with two objects: at address 0 the table of \<open>the cat sat\<close>, at address 1
  that of \<open>the dog sat\<close>, both of order 2, each context with an inner dictionary of its
  own.
\<close>

definition example_store :: "(nat list, nat) store" where
  "example_store =
     \<lparr>tables = (\<lambda>g. [])(0 := [([0], 10), ([1], 11)], 1 := [([0], 12), ([3], 13)]),
      dicts = (\<lambda>a. [])(10 := [(1, 1)], 11 := [(2, 1)], 12 := [(3, 1)], 13 := [(2, 1)]),
      next_obj = 2\<rparr>"

text \<open>The same store with a third object, at address 2.\<close>

definition example_store3 :: "(nat list, nat) store" where
  "example_store3 =
     example_store\<lparr>tables := (tables example_store)(2 := [([0], 14)]),
                   dicts := (dicts example_store)(14 := [(1, 2)]), next_obj := 3\<rparr>"

section \<open>Properties of the merge\<close>

lemma map_of_merge_sub:
  "distinct (map fst items) \<Longrightarrow> map_of (merge_sub d items) = add_sub (map_of d) (map_of items)"
proof (induction items arbitrary: d)
  case Nil
  show ?case by (simp add: add_sub_def)
next
  case (Cons kv items)
  obtain k v where kv: "kv = (k, v)" by (cases kv)
  from Cons.prems kv have fresh: "map_of items k = None" and dist: "distinct (map fst items)"
    by (auto simp: map_of_eq_None_iff)
  show ?case
    using fresh
    by (auto simp: kv Cons.IH [OF dist] add_sub_def update_conv' fun_eq_iff
        split: option.splits)
qed

lemma content_update:
  "content (AList.update k v t) = (content t)(k \<mapsto> map_of v)"
  by (simp add: content_def update_conv' fun_eq_iff)

lemma content_merge_items:
  "wf_table b \<Longrightarrow> content (merge_items a b) = add_tab (content a) (content b)"
proof (induction b arbitrary: a)
  case Nil
  show ?case by (simp add: add_tab_def content_def)
next
  case (Cons kv b)
  obtain k v where kv: "kv = (k, v)" by (cases kv)
  from Cons.prems kv have fresh: "content b k = None" and wfb: "wf_table b"
    and dv: "distinct (map fst v)"
    by (auto simp: wf_table_def wf_dict_def content_def map_of_eq_None_iff)
  have cons: "content ((k, v) # b) = (content b)(k \<mapsto> map_of v)"
    by (simp add: content_def fun_eq_iff)
  define a' where "a' = (case map_of a k of None \<Rightarrow> AList.update k v a
                         | Some d \<Rightarrow> AList.update k (merge_sub d v) a)"
  have step: "content a' = (content a)(k \<mapsto>
                 (case content a k of None \<Rightarrow> map_of v | Some f \<Rightarrow> add_sub f (map_of v)))"
  proof (cases "map_of a k")
    case None
    then have "content a k = None" by (simp add: content_def)
    with None show ?thesis by (simp add: a'_def content_update)
  next
    case (Some d)
    then have "content a k = Some (map_of d)" by (simp add: content_def)
    with Some show ?thesis by (simp add: a'_def content_update map_of_merge_sub [OF dv])
  qed
  have "content (merge_items a (kv # b)) = add_tab (content a') (content b)"
    by (simp add: kv a'_def Cons.IH [OF wfb])
  also have "\<dots> = add_tab (content a) (content ((k, v) # b))"
    using fresh by (auto simp: step cons add_tab_def fun_eq_iff split: option.splits)
  finally show ?case by (simp add: kv)
qed

lemma add_sub_assoc: "add_sub (add_sub f g) h = add_sub f (add_sub g h)"
  by (auto simp: add_sub_def fun_eq_iff split: option.splits)

lemma add_sub_commute: "add_sub f g = add_sub g f"
  by (auto simp: add_sub_def fun_eq_iff split: option.splits)

lemma add_tab_assoc: "add_tab (add_tab F G) H = add_tab F (add_tab G H)"
  by (rule ext) (simp add: add_tab_def add_sub_assoc split: option.splits)

lemma add_tab_commute: "add_tab F G = add_tab G F"
  by (rule ext) (simp add: add_tab_def add_sub_commute split: option.splits)

lemma add_tab_empty_left: "add_tab (\<lambda>k. None) G = G"
  by (rule ext) (simp add: add_tab_def split: option.splits)

lemma add_tab_empty_right: "add_tab F (\<lambda>k. None) = F"
  by (simp add: add_tab_def)

lemma has_context_content: "has_context t k = (content t k \<noteq> None)"
  by (simp add: has_context_def content_def)

lemma has_entry_content:
  "has_entry t k x = (case content t k of None \<Rightarrow> False | Some f \<Rightarrow> f x \<noteq> None)"
  by (simp add: has_entry_def content_def split: option.splits)

lemma get_count_content:
  "get_count t k x =
     (case content t k of None \<Rightarrow> 0 | Some f \<Rightarrow> (case f x of None \<Rightarrow> 0 | Some c \<Rightarrow> c))"
  by (simp add: get_count_def content_def split: option.splits)

lemma has_context_merge_items:
  "wf_table b \<Longrightarrow> has_context (merge_items a b) k = (has_context a k \<or> has_context b k)"
  by (auto simp: has_context_content content_merge_items add_tab_def split: option.splits)

lemma has_entry_merge_items:
  "wf_table b \<Longrightarrow> has_entry (merge_items a b) k x = (has_entry a k x \<or> has_entry b k x)"
  by (auto simp: has_entry_content content_merge_items add_tab_def add_sub_def
      split: option.splits)

lemma get_count_merge_items:
  "wf_table b \<Longrightarrow> get_count (merge_items a b) k x = get_count a k x + get_count b k x"
  by (auto simp: get_count_content content_merge_items add_tab_def add_sub_def
      split: option.splits)

subsection \<open>The merge keeps the keys distinct\<close>

lemma wf_dict_merge_sub: "wf_dict d \<Longrightarrow> wf_dict (merge_sub d items)"
proof (induction items arbitrary: d)
  case Nil
  then show ?case by simp
next
  case (Cons kv items)
  obtain k v where kv: "kv = (k, v)" by (cases kv)
  show ?case
    using Cons.prems
    by (auto simp: kv wf_dict_def distinct_update intro!: Cons.IH [unfolded wf_dict_def]
        split: option.splits)
qed

lemma set_update_cases:
  "e \<in> set (AList.update k v t) \<Longrightarrow> e = (k, v) \<or> e \<in> set t"
  by (induction t) (auto split: if_splits)

lemma wf_table_update:
  "wf_table t \<Longrightarrow> wf_dict v \<Longrightarrow> wf_table (AList.update k v t)"
  by (auto simp: wf_table_def wf_dict_def distinct_update list_all_iff
      dest!: set_update_cases)

lemma wf_table_lookup: "wf_table t \<Longrightarrow> map_of t k = Some d \<Longrightarrow> wf_dict d"
  by (auto simp: wf_table_def list_all_iff dest!: map_of_SomeD)

lemma wf_table_merge_items: "wf_table a \<Longrightarrow> wf_table b \<Longrightarrow> wf_table (merge_items a b)"
proof (induction b arbitrary: a)
  case Nil
  then show ?case by simp
next
  case (Cons kv b)
  obtain k v where kv: "kv = (k, v)" by (cases kv)
  from Cons.prems(2) kv have wfb: "wf_table b" and wfv: "wf_dict v"
    by (auto simp: wf_table_def wf_dict_def)
  show ?case
  proof (cases "map_of a k")
    case None
    with Cons.prems(1) wfv wfb show ?thesis
      by (simp add: kv Cons.IH wf_table_update)
  next
    case (Some d)
    with Cons.prems(1) have "wf_dict (merge_sub d v)"
      by (simp add: wf_dict_merge_sub wf_table_lookup)
    with Some Cons.prems(1) wfb show ?thesis
      by (simp add: kv Cons.IH wf_table_update)
  qed
qed

lemma wf_gram_merge_grams: "wf_gram a \<Longrightarrow> wf_gram b \<Longrightarrow> wf_gram (merge_grams a b)"
  by (simp add: wf_gram_def merge_grams_def wf_table_merge_items)

lemma content_merge_grams:
  "wf_gram b \<Longrightarrow>
   content (chain_frequency (merge_grams a b)) =
     add_tab (content (chain_frequency a)) (content (chain_frequency b))"
  by (simp add: wf_gram_def merge_grams_def content_merge_items)

lemma content_Ngram_new: "content (chain_frequency Ngram_new) = (\<lambda>k. None)"
  by (simp add: Ngram_new_def content_def)

section \<open>Properties of the merges on the store\<close>

text \<open>
  On separate objects one call of \<open>merge_grams\<close> on the store leaves in \<open>gram1\<close>
  the table that \<open>merge_items\<close> computes from the two tables, leaves every other
  separate object as it is, and leaves \<open>gram1\<close> separate from them.
\<close>

lemma update_absent: "map_of t k = None \<Longrightarrow> AList.update k v t = t @ [(k, v)]"
  by (induction t) (auto split: if_splits)

lemma map_of_values: "map_of (map (\<lambda>ka. (fst ka, f (snd ka))) t) k = map_option f (map_of t k)"
  by (induction t) auto

lemma map_values_update:
  "distinct (map snd t) \<Longrightarrow> map_of t k = Some a \<Longrightarrow>
   map (\<lambda>ka. (fst ka, (D(a := X)) (snd ka))) t
     = AList.update k X (map (\<lambda>ka. (fst ka, D (snd ka))) t)"
proof (induction t)
  case Nil
  then show ?case by simp
next
  case (Cons e t)
  obtain k' a' where e: "e = (k', a')" by (cases e)
  show ?case
  proof (cases "k' = k")
    case True
    with Cons.prems e have a: "a' = a" and out: "a \<notin> snd ` set t" by auto
    from out have "map (\<lambda>ka. (fst ka, (D(a := X)) (snd ka))) t = map (\<lambda>ka. (fst ka, D (snd ka))) t"
      by (auto simp: image_iff)
    with True a e show ?thesis by simp
  next
    case False
    with Cons.prems e have m: "map_of t k = Some a" and d: "distinct (map snd t)" by auto
    from m have "a \<in> snd ` set t" by (force dest: map_of_SomeD simp: image_iff)
    with Cons.prems(1) e have "a' \<noteq> a" by auto
    with False e Cons.IH [OF d m] show ?thesis by simp
  qed
qed

lemma merge_items_store_sim:
  "distinct (map snd (tables h g1)) \<Longrightarrow> distinct (map snd items) \<Longrightarrow>
   snd ` set items \<inter> snd ` set (tables h g1) = {} \<Longrightarrow>
   contents (merge_items_store g1 items h) g1
           = merge_items (contents h g1) (map (\<lambda>ka. (fst ka, dicts h (snd ka))) items)
       \<and> distinct (map snd (tables (merge_items_store g1 items h) g1))
       \<and> snd ` set (tables (merge_items_store g1 items h) g1)
            \<subseteq> snd ` set (tables h g1) \<union> snd ` set items
       \<and> (\<forall>g. g \<noteq> g1 \<longrightarrow> tables (merge_items_store g1 items h) g = tables h g)
       \<and> (\<forall>a. a \<notin> snd ` set (tables h g1) \<union> snd ` set items \<longrightarrow>
               dicts (merge_items_store g1 items h) a = dicts h a)"
proof (induction items arbitrary: h)
  case Nil
  then show ?case by simp
next
  case (Cons e items)
  obtain key v where e: "e = (key, v)" by (cases e)
  let ?t = "tables h g1"
  from Cons.prems e have vout: "v \<notin> snd ` set ?t" and vrest: "v \<notin> snd ` set items"
    and drest: "distinct (map snd items)"
    and disj: "snd ` set items \<inter> snd ` set ?t = {}"
    by auto
  show ?case
  proof (cases "map_of ?t key")
    case None
    let ?h1 = "h\<lparr>tables := (tables h)(g1 := AList.update key v ?t)\<rparr>"
    have t1: "AList.update key v ?t = ?t @ [(key, v)]" using None by (rule update_absent)
    have p1: "distinct (map snd (tables ?h1 g1))" using Cons.prems(1) vout by (simp add: t1)
    have p3: "snd ` set items \<inter> snd ` set (tables ?h1 g1) = {}"
      using disj vrest by (auto simp: t1)
    have cN: "map_of (contents h g1) key = None"
      using None by (simp add: contents_def map_of_values)
    have c1: "contents ?h1 g1 = AList.update key (dicts h v) (contents h g1)"
      by (simp add: update_absent [OF cN]) (simp add: contents_def t1)
    have step: "merge_items_store g1 (e # items) h = merge_items_store g1 items ?h1"
      using None by (simp add: e)
    have a1: "snd ` set (tables ?h1 g1) = insert v (snd ` set ?t)" by (simp add: t1)
    have o1: "\<forall>g. g \<noteq> g1 \<longrightarrow> tables ?h1 g = tables h g" by simp
    have d1: "dicts ?h1 = dicts h" by simp
    from Cons.IH [OF p1 drest p3]
    show ?thesis
      unfolding step a1 d1
      using cN o1
      by (auto simp: e c1 simp del: fun_upd_apply)
  next
    case (Some a)
    let ?X = "merge_sub (dicts h a) (dicts h v)"
    let ?h1 = "h\<lparr>dicts := (dicts h)(a := ?X)\<rparr>"
    from Some have ain: "a \<in> snd ` set ?t" by (force dest: map_of_SomeD simp: image_iff)
    with disj have aitems: "a \<notin> snd ` set items" by auto
    have p1: "distinct (map snd (tables ?h1 g1))" using Cons.prems(1) by simp
    have p3: "snd ` set items \<inter> snd ` set (tables ?h1 g1) = {}" using disj by simp
    have c1: "contents ?h1 g1 = AList.update key ?X (contents h g1)"
      using map_values_update [OF Cons.prems(1) Some, of "dicts h" ?X]
      by (simp add: contents_def)
    have cS: "map_of (contents h g1) key = Some (dicts h a)"
      using Some by (simp add: contents_def map_of_values)
    have rest: "map (\<lambda>ka. (fst ka, dicts ?h1 (snd ka))) items
                  = map (\<lambda>ka. (fst ka, dicts h (snd ka))) items"
      using aitems by (auto simp: image_iff)
    have step: "merge_items_store g1 (e # items) h = merge_items_store g1 items ?h1"
      using Some by (simp add: e)
    have t1: "tables ?h1 = tables h" by simp
    have d1: "\<And>b. b \<noteq> a \<Longrightarrow> dicts ?h1 b = dicts h b" by simp
    have pure: "merge_items (contents h g1) (map (\<lambda>ka. (fst ka, dicts h (snd ka))) (e # items))
                  = merge_items (contents ?h1 g1) (map (\<lambda>ka. (fst ka, dicts h (snd ka))) items)"
      by (simp add: e cS c1)
    note ih = Cons.IH [OF p1 drest p3, unfolded rest t1]
    have "contents (merge_items_store g1 items ?h1) g1
            = merge_items (contents h g1) (map (\<lambda>ka. (fst ka, dicts h (snd ka))) (e # items))"
      using ih by (simp only: pure)
    moreover have "distinct (map snd (tables (merge_items_store g1 items ?h1) g1))"
      using ih by blast
    moreover have "snd ` set (tables (merge_items_store g1 items ?h1) g1)
            \<subseteq> snd ` set (tables h g1) \<union> snd ` set (e # items)"
      using ih by auto
    moreover have "\<forall>g. g \<noteq> g1 \<longrightarrow> tables (merge_items_store g1 items ?h1) g = tables h g"
      using ih by blast
    moreover have "\<forall>b. b \<notin> snd ` set (tables h g1) \<union> snd ` set (e # items) \<longrightarrow>
               dicts (merge_items_store g1 items ?h1) b = dicts h b"
    proof (intro allI impI)
      fix b
      assume b: "b \<notin> snd ` set (tables h g1) \<union> snd ` set (e # items)"
      with ain have "b \<noteq> a" by auto
      from b have "b \<notin> snd ` set (tables h g1) \<union> snd ` set items" by auto
      with ih have "dicts (merge_items_store g1 items ?h1) b = dicts ?h1 b" by blast
      with \<open>b \<noteq> a\<close> show "dicts (merge_items_store g1 items ?h1) b = dicts h b"
        by (simp add: d1)
    qed
    ultimately show ?thesis
      unfolding step by blast
  qed
qed


lemma separate_subset:
  "separate h gs \<Longrightarrow> distinct gs' \<Longrightarrow> set gs' \<subseteq> set gs \<Longrightarrow> separate h gs'"
  unfolding separate_def by (simp add: subset_iff)

lemma separate_cong:
  assumes "separate h gs"
    and "\<And>g. g \<in> set gs \<Longrightarrow> tables h' g = tables h g \<and> contents h' g = contents h g"
  shows "separate h' gs"
  using assms unfolding separate_def owns_def addrs_def by simp

lemma merge_grams_store_separate:
  assumes sep: "separate h gs" and g1: "g1 \<in> set gs" and g2: "g2 \<in> set gs" and ne: "g1 \<noteq> g2"
  shows "fst (merge_grams_store g1 g2 h) = g1
       \<and> contents (snd (merge_grams_store g1 g2 h)) g1
            = merge_items (contents h g1) (contents h g2)
       \<and> (\<forall>g\<in>set gs. g \<noteq> g1 \<longrightarrow> g \<noteq> g2 \<longrightarrow>
             contents (snd (merge_grams_store g1 g2 h)) g = contents h g)
       \<and> (\<forall>gs'. distinct gs' \<longrightarrow> set gs' \<subseteq> set gs - {g2} \<longrightarrow>
             separate (snd (merge_grams_store g1 g2 h)) gs')
       \<and> next_obj (snd (merge_grams_store g1 g2 h)) = next_obj h"
proof -
  let ?h' = "merge_items_store g1 (tables h g2) h"
  have h': "snd (merge_grams_store g1 g2 h) = ?h'" by (simp add: merge_grams_store_def)
  from sep g1 g2 ne have o1: "distinct (map snd (tables h g1))"
    and o2: "distinct (map snd (tables h g2))"
    and dj: "snd ` set (tables h g2) \<inter> snd ` set (tables h g1) = {}"
    and wf1: "wf_table (contents h g1)" and wf2: "wf_table (contents h g2)"
    unfolding separate_def owns_def addrs_def by auto
  note sim = merge_items_store_sim [OF o1 o2 dj]
  from sim have c1: "contents ?h' g1 = merge_items (contents h g1) (contents h g2)"
    by (simp add: contents_def)
  from sim have own1: "distinct (map snd (tables ?h' g1))" by blast
  from sim have sub: "snd ` set (tables ?h' g1) \<subseteq> snd ` set (tables h g1) \<union> snd ` set (tables h g2)"
    by blast
  from sim have tab: "\<And>g. g \<noteq> g1 \<Longrightarrow> tables ?h' g = tables h g" by blast
  from sim have dic: "\<And>a. a \<notin> snd ` set (tables h g1) \<union> snd ` set (tables h g2)
                        \<Longrightarrow> dicts ?h' a = dicts h a" by blast
  have other: "contents ?h' g = contents h g" if "g \<in> set gs" "g \<noteq> g1" "g \<noteq> g2" for g
  proof -
    from sep that g1 g2 have "addrs h g \<inter> addrs h g1 = {}" "addrs h g \<inter> addrs h g2 = {}"
      unfolding separate_def by auto
    then have out: "\<And>a. a \<in> snd ` set (tables h g) \<Longrightarrow>
                 a \<notin> snd ` set (tables h g1) \<union> snd ` set (tables h g2)"
      unfolding addrs_def by auto
    have "dicts ?h' (snd ka) = dicts h (snd ka)" if "ka \<in> set (tables h g)" for ka
    proof -
      from that have "snd ka \<in> snd ` set (tables h g)" by (rule imageI)
      then have "snd ka \<notin> snd ` set (tables h g1) \<union> snd ` set (tables h g2)" by (rule out)
      then show ?thesis by (rule dic)
    qed
    with tab [OF that(2)] show ?thesis by (simp add: contents_def)
  qed
  have seps: "separate ?h' gs'" if d: "distinct gs'" and ss: "set gs' \<subseteq> set gs - {g2}" for gs'
    unfolding separate_def
  proof (intro conjI ballI impI)
    show "distinct gs'" by (rule d)
  next
    fix g assume g: "g \<in> set gs'"
    show "owns ?h' g"
    proof (cases "g = g1")
      case True
      with own1 show ?thesis by (simp add: owns_def)
    next
      case False
      with g ss sep tab [OF False] show ?thesis unfolding separate_def owns_def by auto
    qed
  next
    fix g assume g: "g \<in> set gs'"
    show "wf_table (contents ?h' g)"
    proof (cases "g = g1")
      case True
      with c1 wf1 wf2 show ?thesis by (simp add: wf_table_merge_items)
    next
      case False
      with g ss have "contents ?h' g = contents h g" by (auto intro: other)
      with g ss sep show ?thesis unfolding separate_def by auto
    qed
  next
    fix g g' assume g: "g \<in> set gs'" and g': "g' \<in> set gs'" and n: "g \<noteq> g'"
    have key: "addrs ?h' x \<inter> addrs ?h' y = {}"
      if "x \<in> set gs'" "y \<in> set gs'" "x \<noteq> y" "y \<noteq> g1" for x y
    proof (cases "x = g1")
      case True
      from that ss have y: "y \<in> set gs" "y \<noteq> g2" by auto
      with sep g1 g2 that(4) have "addrs h y \<inter> addrs h g1 = {}" "addrs h y \<inter> addrs h g2 = {}"
        unfolding separate_def by auto
      then have d: "snd ` set (tables h y) \<inter> snd ` set (tables h g1) = {}"
        "snd ` set (tables h y) \<inter> snd ` set (tables h g2) = {}"
        by (simp_all add: addrs_def)
      have "snd ` set (tables ?h' g1) \<inter> snd ` set (tables h y) = {}"
        using sub d by blast
      with tab [OF that(4)] True show ?thesis by (simp add: addrs_def)
    next
      case False
      from that ss have "x \<in> set gs" "y \<in> set gs" by auto
      with sep that(3) have "addrs h x \<inter> addrs h y = {}" unfolding separate_def by blast
      with tab [OF False] tab [OF that(4)] show ?thesis by (simp add: addrs_def)
    qed
    show "addrs ?h' g \<inter> addrs ?h' g' = {}"
    proof (cases "g' = g1")
      case True
      with n have "g \<noteq> g1" by simp
      from key [OF g' g n [symmetric] this] show ?thesis by auto
    next
      case False
      from key [OF g g' n False] show ?thesis .
    qed
  qed
  have nx: "next_obj (merge_items_store g items s) = next_obj s" for g items and s :: "('a, 'b) store"
    by (induction items arbitrary: s) (auto split: option.splits)
  show ?thesis
    unfolding h' using c1 other seps by (simp add: merge_grams_store_def nx)
qed

lemma separate_wf: "separate h gs \<Longrightarrow> g \<in> set gs \<Longrightarrow> wf_table (contents h g)"
  by (simp add: separate_def)

lemma merge_left_value:
  assumes sep: "separate h [A, B, C]"
  shows "merge_left A B C h
           = merge_items (merge_items (contents h A) (contents h B)) (contents h C)"
proof -
  from sep have d: "A \<noteq> B" "A \<noteq> C" "B \<noteq> C" by (auto simp: separate_def)
  let ?h1 = "snd (merge_grams_store A B h)"
  note m1 = merge_grams_store_separate [OF sep, of A B]
  from m1 d have f1: "fst (merge_grams_store A B h) = A"
    and c1: "contents ?h1 A = merge_items (contents h A) (contents h B)"
    and c1C: "contents ?h1 C = contents h C"
    by simp_all
  from m1 d have sep1: "separate ?h1 [A, C]" by simp
  note m2 = merge_grams_store_separate [OF sep1, of A C]
  from m2 d have f2: "fst (merge_grams_store A C ?h1) = A"
    and c2: "contents (snd (merge_grams_store A C ?h1)) A
               = merge_items (contents ?h1 A) (contents ?h1 C)"
    by simp_all
  show ?thesis
    by (simp add: merge_left_def split_beta f1 f2 c2 c1 c1C)
qed

lemma merge_right_value:
  assumes sep: "separate h [A, B, C]"
  shows "merge_right A B C h
           = merge_items (contents h A) (merge_items (contents h B) (contents h C))"
proof -
  from sep have d: "A \<noteq> B" "A \<noteq> C" "B \<noteq> C" by (auto simp: separate_def)
  let ?h1 = "snd (merge_grams_store B C h)"
  note m1 = merge_grams_store_separate [OF sep, of B C]
  from m1 d have f1: "fst (merge_grams_store B C h) = B"
    and c1: "contents ?h1 B = merge_items (contents h B) (contents h C)"
    and c1A: "contents ?h1 A = contents h A"
    by simp_all
  from m1 d have sep1: "separate ?h1 [A, B]" by simp
  note m2 = merge_grams_store_separate [OF sep1, of A B]
  from m2 d have f2: "fst (merge_grams_store A B ?h1) = A"
    and c2: "contents (snd (merge_grams_store A B ?h1)) A
               = merge_items (contents ?h1 A) (contents ?h1 B)"
    by simp_all
  show ?thesis
    by (simp add: merge_right_def split_beta f1 f2 c2 c1 c1A)
qed

lemma content_sum_Nil: "content_sum h [] = (\<lambda>k. None)"
  by (simp add: content_sum_def)

lemma content_sum_Cons:
  "content_sum h (g # gs) = add_tab (content (contents h g)) (content_sum h gs)"
  by (simp add: content_sum_def)

lemma content_sum_cong:
  "(\<And>g. g \<in> set gs \<Longrightarrow> contents h' g = contents h g) \<Longrightarrow> content_sum h' gs = content_sum h gs"
  by (induction gs) (simp_all add: content_sum_Nil content_sum_Cons)

lemma separate_distinct: "separate h gs \<Longrightarrow> distinct gs"
  by (simp add: separate_def)

lemma merge_round_separate:
  "separate h live \<Longrightarrow> distinct ms \<Longrightarrow> set ms \<subseteq> set live \<Longrightarrow>
   set (fst (merge_round ms h)) \<subseteq> set ms
   \<and> distinct (fst (merge_round ms h))
   \<and> (ms \<noteq> [] \<longrightarrow> fst (merge_round ms h) \<noteq> [])
   \<and> (\<forall>gs'. distinct gs' \<longrightarrow> set gs' \<subseteq> (set live - set ms) \<union> set (fst (merge_round ms h))
          \<longrightarrow> separate (snd (merge_round ms h)) gs')
   \<and> content_sum (snd (merge_round ms h)) (fst (merge_round ms h)) = content_sum h ms
   \<and> (\<forall>g\<in>set live - set ms. contents (snd (merge_round ms h)) g = contents h g)
   \<and> next_obj (snd (merge_round ms h)) = next_obj h"
proof (induction ms arbitrary: h live rule: induct_list012)
  case 1
  then show ?case by (auto intro: separate_subset)
next
  case (2 x)
  then show ?case by (auto intro: separate_subset)
next
  case (3 x y zs)
  let ?h1 = "snd (merge_grams_store x y h)"
  let ?live1 = "removeAll y live"
  let ?zs' = "fst (merge_round zs ?h1)"
  let ?h2 = "snd (merge_round zs ?h1)"
  from "3.prems" have xy: "x \<noteq> y" and xz: "x \<notin> set zs" and yz: "y \<notin> set zs"
    and dz: "distinct zs" and xl: "x \<in> set live" and yl: "y \<in> set live"
    and zl: "set zs \<subseteq> set live"
    by auto
  note m = merge_grams_store_separate [OF "3.prems"(1) xl yl xy]
  from m have f: "fst (merge_grams_store x y h) = x" by simp
  from m have cx: "contents ?h1 x = merge_items (contents h x) (contents h y)" by simp
  from m have oth: "\<And>g. g \<in> set live \<Longrightarrow> g \<noteq> x \<Longrightarrow> g \<noteq> y \<Longrightarrow> contents ?h1 g = contents h g"
    by simp
  from m have nx1: "next_obj ?h1 = next_obj h" by simp
  have dl: "distinct ?live1" using "3.prems"(1) by (simp add: separate_distinct distinct_removeAll)
  from m dl have sep1: "separate ?h1 ?live1" by auto
  have zl1: "set zs \<subseteq> set ?live1" using zl yz by auto
  note ih = "3.IH"(1) [OF sep1 dz zl1]
  have res: "merge_round (x # y # zs) h = (x # ?zs', ?h2)"
    by (simp add: split_beta f)
  from ih have sub: "set ?zs' \<subseteq> set zs" and dz': "distinct ?zs'" by simp_all
  from ih have sepz: "\<And>gs'. distinct gs' \<Longrightarrow> set gs' \<subseteq> (set ?live1 - set zs) \<union> set ?zs'
                        \<Longrightarrow> separate ?h2 gs'"
    by blast
  from ih have cs: "content_sum ?h2 ?zs' = content_sum ?h1 zs" by simp
  from ih have keep: "\<And>g. g \<in> set ?live1 - set zs \<Longrightarrow> contents ?h2 g = contents ?h1 g"
    by blast
  from ih have nx2: "next_obj ?h2 = next_obj ?h1" by simp
  have x1: "x \<in> set ?live1 - set zs" using xl xy xz by simp
  have wfy: "wf_table (contents h y)" using "3.prems"(1) yl by (simp add: separate_def)
  have csz: "content_sum ?h1 zs = content_sum h zs"
  proof (rule content_sum_cong)
    fix g assume "g \<in> set zs"
    with zl xz yz show "contents ?h1 g = contents h g" by (auto intro: oth)
  qed
  have sum: "content_sum ?h2 (x # ?zs') = content_sum h (x # y # zs)"
    using wfy
    by (simp add: content_sum_Cons keep [OF x1] cx cs csz content_merge_items add_tab_assoc)
  have sepr: "separate ?h2 gs'"
    if "distinct gs'" "set gs' \<subseteq> (set live - set (x # y # zs)) \<union> set (x # ?zs')" for gs'
  proof (rule sepz [OF that(1)])
    show "set gs' \<subseteq> (set ?live1 - set zs) \<union> set ?zs'"
      using that(2) x1 by auto
  qed
  have keepr: "contents ?h2 g = contents h g" if "g \<in> set live - set (x # y # zs)" for g
  proof -
    from that have "g \<in> set ?live1 - set zs" by auto
    then have "contents ?h2 g = contents ?h1 g" by (rule keep)
    also from that have "\<dots> = contents h g" by (auto intro: oth)
    finally show ?thesis .
  qed
  show ?case
    unfolding res fst_conv snd_conv
    using sub dz' xz sepr sum keepr nx1 nx2
    by (intro conjI) auto
qed

lemma merge_models_incrementally_separate:
  "separate h ms \<Longrightarrow> ms \<noteq> [] \<Longrightarrow>
   \<exists>r h'. merge_models_incrementally ms h = Inr (r, h')
           \<and> content (contents h' r) = content_sum h ms"
proof (induction ms h rule: merge_models_incrementally.induct)
  case (1 ms h)
  show ?case
  proof (cases "length ms > 1")
    case True
    let ?ms' = "fst (merge_round ms h)"
    let ?h' = "snd (merge_round ms h)"
    from "1.prems"(1) have d: "distinct ms" by (rule separate_distinct)
    note r = merge_round_separate [OF "1.prems"(1) d subset_refl]
    from r "1.prems"(2) have ne: "?ms' \<noteq> []" by simp
    from r have "distinct ?ms'" by simp
    with r have sep: "separate ?h' ?ms'" by simp
    from r have cs: "content_sum ?h' ?ms' = content_sum h ms" by simp
    from "1.IH" [OF True prod.collapse sep ne] cs True
    show ?thesis
      by (subst merge_models_incrementally.simps) (simp add: split_beta)
  next
    case False
    with "1.prems"(2) obtain m where ms: "ms = [m]" by (cases ms) auto
    show ?thesis
      by (subst merge_models_incrementally.simps)
         (simp add: ms content_sum_Cons content_sum_Nil add_tab_empty_right)
  qed
qed

lemma fold_merge_separate:
  "separate h (gf # gs) \<Longrightarrow>
   fst (fold_merge gf gs h) = gf
   \<and> content (contents (snd (fold_merge gf gs h)) gf)
       = add_tab (content (contents h gf)) (content_sum h gs)"
proof (induction gs arbitrary: h)
  case Nil
  show ?case by (simp add: content_sum_Nil add_tab_empty_right)
next
  case (Cons g gs)
  let ?h1 = "snd (merge_grams_store gf g h)"
  from Cons.prems have ne: "gf \<noteq> g" and gfn: "gf \<notin> set gs" and gn: "g \<notin> set gs"
    by (auto simp: separate_def)
  have in1: "gf \<in> set (gf # g # gs)" and in2: "g \<in> set (gf # g # gs)" by simp_all
  note m = merge_grams_store_separate [OF Cons.prems in1 in2 ne]
  from m have f: "fst (merge_grams_store gf g h) = gf" by (rule conjunct1)
  from m have c: "contents ?h1 gf = merge_items (contents h gf) (contents h g)"
    by (elim conjE)
  from m have oth0: "\<forall>x\<in>set (gf # g # gs). x \<noteq> gf \<longrightarrow> x \<noteq> g \<longrightarrow> contents ?h1 x = contents h x"
    by (elim conjE)
  have oth: "contents ?h1 x = contents h x" if "x \<in> set gs" for x
  proof -
    from that gfn gn have "x \<noteq> gf" "x \<noteq> g" by auto
    with that oth0 show ?thesis by simp
  qed
  from m have all: "\<forall>gs'. distinct gs' \<longrightarrow> set gs' \<subseteq> set (gf # g # gs) - {g}
                      \<longrightarrow> separate ?h1 gs'"
    by (elim conjE)
  from Cons.prems have dd: "distinct (gf # gs)" by (auto simp: separate_def)
  have ss: "set (gf # gs) \<subseteq> set (gf # g # gs) - {g}" using ne gn by auto
  from all dd ss have sep1: "separate ?h1 (gf # gs)" by blast
  have wfg: "wf_table (contents h g)" using Cons.prems by (simp add: separate_def)
  have cs: "content_sum ?h1 gs = content_sum h gs"
    by (rule content_sum_cong) (rule oth)
  have step: "fold_merge gf (g # gs) h = fold_merge gf gs ?h1"
    by (simp add: split_beta f)
  from Cons.IH [OF sep1] show ?case
    unfolding step using wfg
    by (simp add: c cs content_merge_items content_sum_Cons add_tab_assoc)
qed

lemma Ngram_store_separate:
  assumes "separate h gs" and "\<forall>g\<in>set gs. g < next_obj h"
  shows "fst (Ngram_store h) = next_obj h
       \<and> separate (snd (Ngram_store h)) (next_obj h # gs)
       \<and> contents (snd (Ngram_store h)) (next_obj h) = []
       \<and> (\<forall>g\<in>set gs. contents (snd (Ngram_store h)) g = contents h g)"
proof -
  let ?n = "next_obj h"
  let ?h1 = "snd (Ngram_store h)"
  from assms(2) have new: "?n \<notin> set gs" by auto
  have t: "tables ?h1 ?n = []" "dicts ?h1 = dicts h" "\<And>g. g \<noteq> ?n \<Longrightarrow> tables ?h1 g = tables h g"
    by (simp_all add: Ngram_store_def)
  have same: "tables ?h1 g = tables h g \<and> contents ?h1 g = contents h g" if "g \<in> set gs" for g
  proof -
    from that new have "g \<noteq> ?n" by auto
    then show ?thesis by (simp add: contents_def t)
  qed
  from assms(1) same have sep: "separate ?h1 gs" by (rule separate_cong)
  have "separate ?h1 (?n # gs)"
    using sep new unfolding separate_def owns_def addrs_def
    by (simp add: t contents_def wf_table_def wf_dict_def)
  with same show ?thesis by (simp add: Ngram_store_def contents_def)
qed

lemmas store_eval = example_store_def example_store3_def merge_left_def merge_right_def merge_grams_store_def
  contents_def separate_def owns_def addrs_def wf_table_def wf_dict_def

lemmas tree_eval = tree_contents_def fold_contents_def linear_fold_store_def Ngram_store_def
  merge_models_incrementally.simps

text \<open>One object as both operands: every count is doubled.\<close>

lemma example_same_object:
  "contents (snd (merge_grams_store 0 0 example_store)) 0
     = [([0], [(1, 2)]), ([1], [(2, 2)])]"
  by (simp add: store_eval)

section \<open>Properties of preprocessing\<close>

lemma isspace_nl_to_space: "isspace (if c = 10 then 32 else c) = isspace c"
  by (simp add: isspace_def)

lemma lstrip_replace: "lstrip (replace 10 32 t) = replace 10 32 (lstrip t)"
  by (simp add: lstrip_def replace_def dropWhile_map comp_def isspace_nl_to_space)

lemma strip_replace: "strip (replace 10 32 t) = replace 10 32 (strip t)"
proof -
  have r: "rev (replace 10 32 u) = replace 10 32 (rev u)" for u
    by (simp add: replace_def rev_map)
  show ?thesis
    by (simp add: strip_def lstrip_replace r)
qed

lemma lstrip_id: "t = [] \<or> \<not> isspace (hd t) \<Longrightarrow> lstrip t = t"
  by (cases t) (auto simp: lstrip_def)

lemma strip_parts:
  "\<exists>a b. t = a @ strip t @ b \<and> list_all isspace a \<and> list_all isspace b"
proof -
  let ?u = "lstrip t"
  let ?w = "lstrip (rev ?u)"
  have 1: "t = takeWhile isspace t @ ?u"
    by (simp add: lstrip_def)
  have "rev ?u = takeWhile isspace (rev ?u) @ ?w"
    by (simp add: lstrip_def)
  then have "rev (rev ?u) = rev (takeWhile isspace (rev ?u) @ ?w)" by simp
  then have 2: "?u = strip t @ rev (takeWhile isspace (rev ?u))"
    by (simp add: strip_def)
  have "t = takeWhile isspace t @ strip t @ rev (takeWhile isspace (rev ?u))"
    using 1 2 by metis
  moreover have "list_all isspace (takeWhile isspace t)"
    by (auto simp: list_all_iff dest: set_takeWhileD)
  moreover have "list_all isspace (rev (takeWhile isspace (rev ?u)))"
    by (auto simp: list_all_iff dest: set_takeWhileD)
  ultimately show ?thesis by blast
qed

lemma last_dropWhile_keep: "dropWhile P xs \<noteq> [] \<Longrightarrow> last (dropWhile P xs) = last xs"
proof -
  assume ne: "dropWhile P xs \<noteq> []"
  have "last xs = last (takeWhile P xs @ dropWhile P xs)" by simp
  also have "\<dots> = last (dropWhile P xs)" using ne by (rule last_appendR)
  finally show ?thesis by simp
qed

lemma strip_ends:
  "strip t = [] \<or> (\<not> isspace (hd (strip t)) \<and> \<not> isspace (last (strip t)))"
proof (cases "strip t = []")
  case True
  then show ?thesis by simp
next
  case False
  let ?u = "dropWhile isspace t"
  let ?w = "dropWhile isspace (rev ?u)"
  have st: "strip t = rev ?w" by (simp add: strip_def lstrip_def)
  with False have wne: "?w \<noteq> []" by simp
  have une: "?u \<noteq> []"
  proof
    assume "?u = []"
    then have "?w = dropWhile isspace (rev [])" by (simp only:)
    with wne show False by simp
  qed
  have "last (strip t) = hd ?w" using wne by (simp add: st last_rev)
  moreover have "\<not> isspace (hd ?w)" using wne by (rule hd_dropWhile)
  moreover have "hd (strip t) = last ?w" using wne by (simp add: st hd_rev)
  moreover have "last ?w = last (rev ?u)" using wne by (rule last_dropWhile_keep)
  moreover have "last (rev ?u) = hd ?u" using une by (simp add: last_rev)
  moreover have "\<not> isspace (hd ?u)" using une by (rule hd_dropWhile)
  ultimately show ?thesis by simp
qed

lemma strip_fixed: "t = [] \<or> (\<not> isspace (hd t) \<and> \<not> isspace (last t)) \<Longrightarrow> strip t = t"
proof (cases "t = []")
  case True
  then show ?thesis by (simp add: strip_def lstrip_def)
next
  case False
  assume "t = [] \<or> (\<not> isspace (hd t) \<and> \<not> isspace (last t))"
  with False have h: "\<not> isspace (hd t)" and l: "\<not> isspace (last t)" by simp_all
  from False h have 1: "lstrip t = t" by (simp add: lstrip_id)
  from False l have "lstrip (rev t) = rev t" by (simp add: lstrip_id hd_rev)
  with 1 show ?thesis by (simp add: strip_def)
qed

lemma strip_idem: "strip (strip t) = strip t"
  using strip_ends [of t] by (rule strip_fixed)

lemma preprocessing_eq: "preprocessing t = replace 10 32 (strip t)"
  by (simp add: preprocessing_def Let_def)

section \<open>Properties of the training run\<close>

lemma same_but_temp_refl: "same_but_temp st st"
  by (simp add: same_but_temp_def)

lemma same_but_temp_trans:
  "same_but_temp st st1 \<Longrightarrow> same_but_temp st1 st2 \<Longrightarrow> same_but_temp st st2"
  by (simp add: same_but_temp_def)

lemma train_ngram_frame: "same_but_temp st (snd (train_ngram M n text v st))"
  by (simp add: train_ngram_def same_but_temp_def split: sum.splits)

lemma call_train_ngram_frame: "same_but_temp st (snd (call_train_ngram M args st))"
  by (cases "(M, args, st)" rule: call_train_ngram.cases)
     (simp_all add: train_ngram_frame same_but_temp_refl)

lemma and_then_frame:
  assumes "same_but_temp st (snd r)" and "\<And>st1. same_but_temp st1 (snd (f st1))"
  shows "same_but_temp st (snd (and_then r f))"
proof (cases r)
  case (Pair e st1)
  with assms show ?thesis
    by (cases e) (auto simp: and_then_def intro: same_but_temp_trans)
qed

lemma run_tasks_frame: "same_but_temp st (snd (run_tasks M n ds st))"
proof (induction ds arbitrary: st)
  case Nil
  show ?case by (simp add: same_but_temp_refl)
next
  case (Cons doc rest)
  show ?case
  proof (cases "vocab st")
    case None
    then show ?thesis by (simp add: same_but_temp_refl)
  next
    case (Some v)
    then show ?thesis
      by (auto intro!: and_then_frame train_ngram_frame Cons.IH)
  qed
qed

lemma run_futures_frame: "same_but_temp st (snd (run_futures M results st))"
proof (induction results arbitrary: st)
  case Nil
  show ?case by (simp add: same_but_temp_refl)
next
  case (Cons args rest)
  have 1: "same_but_temp st (snd (call_train_ngram M args st))"
    by (rule call_train_ngram_frame)
  have 2: "same_but_temp (snd (call_train_ngram M args st))
             (snd (run_futures M rest (snd (call_train_ngram M args st))))"
    by (rule Cons.IH)
  from same_but_temp_trans [OF 1 2] show ?case
    by (simp add: split_beta Let_def)
qed

lemma dispatch_frame: "same_but_temp st (snd (dispatch M cfg n st))"
  by (simp add: dispatch_def run_tasks_frame run_futures_frame same_but_temp_refl
      split: option.splits sum.splits)

lemma merge_loop_frame: "same_but_temp st (snd (snd (merge_loop g paths st)))"
proof (induction paths arbitrary: g st)
  case Nil
  show ?case by (simp add: same_but_temp_refl)
next
  case (Cons p rest)
  show ?case
  proof (cases "map_of (temp st) p")
    case None
    then show ?thesis by (simp add: same_but_temp_refl)
  next
    case (Some cf)
    have "same_but_temp st (st\<lparr>temp := AList.delete p (temp st)\<rparr>)"
      by (simp add: same_but_temp_def)
    with Some show ?thesis
      by (auto intro: same_but_temp_trans Cons.IH)
  qed
qed

lemma merge_loop_all:
  "distinct (map fst fs) \<Longrightarrow> temp st = fs \<Longrightarrow>
   merge_loop g (map fst fs) st =
     (None, foldl merge_grams g (map (\<lambda>f. \<lparr>chain_frequency = snd f\<rparr>) fs), st\<lparr>temp := []\<rparr>)"
proof (induction fs arbitrary: g st)
  case Nil
  then show ?case by simp
next
  case (Cons f fs)
  obtain p cf where f: "f = (p, cf)" by (cases f)
  from Cons.prems f have d: "distinct (map fst fs)" and fresh: "p \<notin> fst ` set fs"
    by auto
  from fresh have del: "AList.delete p fs = fs"
    by simp
  let ?st = "st\<lparr>temp := AList.delete p (temp st)\<rparr>"
  have t: "temp ?st = fs" using Cons.prems(2) del by (simp add: f)
  show ?case
    using Cons.prems(2) Cons.IH [OF d t]
    by (simp add: f)
qed

lemma merge_and_save_ok:
  "wf_dict (temp st) \<Longrightarrow>
   merge_and_save n st =
     (None, st\<lparr>models := (models st)(n \<mapsto>
               chain_frequency (foldl merge_grams Ngram_new
                  (map (\<lambda>f. \<lparr>chain_frequency = snd f\<rparr>) (temp st)))), temp := []\<rparr>)"
  by (simp add: merge_and_save_def Let_def wf_dict_def merge_loop_all [where fs = "temp st"])

lemma train_ngram_wf: "wf_dict (temp st) \<Longrightarrow> wf_dict (temp (snd (train_ngram M n doc v st)))"
  by (simp add: train_ngram_def wf_dict_def distinct_update split: sum.splits)

lemma call_train_ngram_wf:
  "wf_dict (temp st) \<Longrightarrow> wf_dict (temp (snd (call_train_ngram M args st)))"
  by (cases "(M, args, st)" rule: call_train_ngram.cases) (simp_all add: train_ngram_wf)

lemma run_tasks_wf: "wf_dict (temp st) \<Longrightarrow> wf_dict (temp (snd (run_tasks M n ds st)))"
proof (induction ds arbitrary: st)
  case Nil
  then show ?case by simp
next
  case (Cons doc rest)
  show ?case
  proof (cases "vocab st")
    case None
    with Cons.prems show ?thesis by simp
  next
    case (Some v)
    obtain r st1 where c: "train_ngram M n doc v st = (r, st1)" by (cases "train_ngram M n doc v st")
    with train_ngram_wf [OF Cons.prems, of M n doc v] have "wf_dict (temp st1)" by simp
    with Some c Cons.IH [of st1] show ?thesis
      by (cases r) (simp_all add: and_then_def)
  qed
qed

lemma run_futures_wf:
  "wf_dict (temp st) \<Longrightarrow> wf_dict (temp (snd (run_futures M results st)))"
proof (induction results arbitrary: st)
  case Nil
  then show ?case by simp
next
  case (Cons args rest)
  from Cons.prems have "wf_dict (temp (snd (call_train_ngram M args st)))"
    by (rule call_train_ngram_wf)
  then have "wf_dict (temp (snd (run_futures M rest (snd (call_train_ngram M args st)))))"
    by (rule Cons.IH)
  then show ?case by (simp add: split_beta Let_def)
qed

lemma dispatch_wf: "wf_dict (temp st) \<Longrightarrow> wf_dict (temp (snd (dispatch M cfg n st)))"
  by (simp add: dispatch_def run_tasks_wf run_futures_wf split: option.splits sum.splits)

lemma run_order_unfold:
  "run_order M cfg n st =
     (case dispatch M cfg n (st\<lparr>temp := []\<rparr>) of
        (Some e, st2) \<Rightarrow> (Some e, st2)
      | (None, st2) \<Rightarrow>
          (case vocab st of
             None \<Rightarrow> (Some (UnboundLocalError ''vocab''), st2)
           | Some v \<Rightarrow>
               (case data st of
                  None \<Rightarrow> (Some (UnboundLocalError ''data''), st2\<lparr>vocab := None\<rparr>)
                | Some ds \<Rightarrow>
                    (None, st2\<lparr>vocab := None, data := None,
                       models := (models st)(n \<mapsto>
                         chain_frequency (foldl merge_grams Ngram_new
                            (map (\<lambda>f. \<lparr>chain_frequency = snd f\<rparr>) (temp st2)))),
                       temp := []\<rparr>))))"
proof -
  obtain r st2 where d: "dispatch M cfg n (st\<lparr>temp := []\<rparr>) = (r, st2)"
    by (cases "dispatch M cfg n (st\<lparr>temp := []\<rparr>)")
  have "same_but_temp (st\<lparr>temp := []\<rparr>) (snd (dispatch M cfg n (st\<lparr>temp := []\<rparr>)))"
    by (rule dispatch_frame)
  with d have fr: "vocab st2 = vocab st" "data st2 = data st" "models st2 = models st"
    by (simp_all add: same_but_temp_def)
  have "wf_dict (temp (snd (dispatch M cfg n (st\<lparr>temp := []\<rparr>))))"
    by (rule dispatch_wf) (simp add: wf_dict_def)
  with d have wf: "wf_dict (temp st2)" by simp
  then have wf': "wf_dict (temp (st2\<lparr>vocab := None, data := None\<rparr>))" by simp
  show ?thesis
    using fr
    by (simp add: run_order_def d and_then_def del_vocab_def del_data_def
        merge_and_save_ok [OF wf'] split: option.splits)
qed

lemmas eval_defs = fresh_state_def example_docs_def local_config_def dask_config_def
  spec_modules_def spec_update_def spec_chain_to_ids_def spec_train_def increment_def
  startup_def load_or_create_vocabulary_def preprocessing_def strip_def lstrip_def replace_def
  split_def isspace_def Let_def main_def run_order_def and_then_def dispatch_def
  train_ngram_def del_vocab_def del_data_def merge_and_save_def Ngram_new_def merge_grams_def
  dask_results_def

text \<open>The example of the specification: two documents, order 2.\<close>

lemma example_vocabulary:
  "vocab (startup spec_modules (local_config 2 2) example_docs fresh_state)
     = Some [(map of_char ''the'', 0), (map of_char ''cat'', 1), (map of_char ''sat'', 2),
             (map of_char ''dog'', 3)]"
  by (simp add: eval_defs)

lemma example_final_model:
  "fst (main spec_modules (local_config 2 2) example_docs fresh_state) = None
   \<and> models (snd (main spec_modules (local_config 2 2) example_docs fresh_state)) 2
     = Some [([0], [(1, 1), (3, 1)]), ([1], [(2, 1)]), ([3], [(2, 1)])]"
  by (simp add: eval_defs upto_rec1)

lemma dispatch_unbound:
  "data st = None \<Longrightarrow> dispatch M cfg n st = (Some (UnboundLocalError ''data''), st)"
  by (simp add: dispatch_def)

lemma run_order_unbound:
  "data st = None \<Longrightarrow>
   run_order M cfg n st = (Some (UnboundLocalError ''data''), st\<lparr>temp := []\<rparr>)"
  by (simp add: run_order_def and_then_def dispatch_unbound)

lemma run_order_models: "m \<noteq> n \<Longrightarrow> models (snd (run_order M cfg n st)) m = models st m"
proof -
  assume mn: "m \<noteq> n"
  obtain r st2 where d: "dispatch M cfg n (st\<lparr>temp := []\<rparr>) = (r, st2)"
    by (cases "dispatch M cfg n (st\<lparr>temp := []\<rparr>)")
  have "same_but_temp (st\<lparr>temp := []\<rparr>) (snd (dispatch M cfg n (st\<lparr>temp := []\<rparr>)))"
    by (rule dispatch_frame)
  with d have "models st2 = models st" by (simp add: same_but_temp_def)
  with mn show ?thesis
    by (simp add: run_order_unfold d split: option.splits)
qed

lemma run_order_done:
  "run_order M cfg n st = (None, st') \<Longrightarrow> data st' = None \<and> vocab st' = None \<and> temp st' = []"
  by (auto simp: run_order_unfold split: prod.splits option.splits)

lemma startup_models: "models (startup M cfg docs st) = models st"
  by (simp add: startup_def load_or_create_vocabulary_def Let_def split: option.splits)

lemma run_futures_two_args:
  "run_futures M (map (\<lambda>doc. [PStr doc, PVocab dv]) ds) st = (map (\<lambda>doc. Some TypeError) ds, st)"
  by (induction ds) simp_all

lemma failed_dispatch_aborts:
  assumes "dispatch M cfg n (st\<lparr>temp := []\<rparr>) = (Some e, st')"
  shows "run_order M cfg n st = (Some e, st') \<and> models st' = models st"
proof -
  have "same_but_temp (st\<lparr>temp := []\<rparr>) (snd (dispatch M cfg n (st\<lparr>temp := []\<rparr>)))"
    by (rule dispatch_frame)
  with assms have "models st' = models st" by (simp add: same_but_temp_def)
  with assms show ?thesis by (simp add: run_order_unfold)
qed

lemma example_local_failure:
  "fst (main spec_modules (local_config 2 2) example_docs
          (fresh_state\<lparr>vocab_file := Some [(map of_char ''the'', 0)]\<rparr>))
     = Some (Raised ''KeyError'')
   \<and> models (snd (main spec_modules (local_config 2 2) example_docs
          (fresh_state\<lparr>vocab_file := Some [(map of_char ''the'', 0)]\<rparr>))) 2 = None"
  by (simp add: eval_defs upto_rec1)


lemma startup_data: "data (startup M cfg docs st) = Some (map preprocessing docs)"
  by (simp add: startup_def Let_def split_beta)

lemma startup_vocab:
  "vocab (startup M cfg docs st) =
     Some (case vocab_file st of
             Some v \<Rightarrow> v
           | None \<Rightarrow> foldl (Vocabulary_update M) (Vocabulary_new M) (map preprocessing docs))"
  by (simp add: startup_def load_or_create_vocabulary_def Let_def split: option.splits)

lemma dispatch_local:
  "\<not> dask_distributed cfg \<Longrightarrow> data st = Some ds \<Longrightarrow> dispatch M cfg n st = run_tasks M n ds st"
  by (simp add: dispatch_def)

section \<open>The claims about the merge\<close>

text \<open>
  C3: for a table \<open>b\<close> with distinct keys, the table that \<open>merge_grams a b\<close> returns
  holds a context exactly when \<open>a\<close> or \<open>b\<close> holds it, holds a next-id under a context
  exactly when \<open>a\<close> or \<open>b\<close> holds it there, and every count is the sum of the counts
  of \<open>a\<close> and \<open>b\<close>, an absent entry counting 0.
\<close>

theorem merge_grams_sums:
  assumes "wf_gram b"
  shows "(has_context (chain_frequency (merge_grams a b)) k
            = (has_context (chain_frequency a) k \<or> has_context (chain_frequency b) k))
       \<and> (has_entry (chain_frequency (merge_grams a b)) k x
            = (has_entry (chain_frequency a) k x \<or> has_entry (chain_frequency b) k x))
       \<and> get_count (chain_frequency (merge_grams a b)) k x
            = get_count (chain_frequency a) k x + get_count (chain_frequency b) k x"
  using assms
  by (simp add: wf_gram_def merge_grams_def has_context_merge_items has_entry_merge_items
      get_count_merge_items)

theorem merge_grams_sums_witness:
  "wf_gram \<lparr>chain_frequency = [([0::nat], [(3::nat, 1)]), ([3], [(2, 1)])]\<rparr>
   \<and> has_context (chain_frequency (merge_grams \<lparr>chain_frequency = [([0::nat], [(1::nat, 1)]), ([1], [(2, 1)])]\<rparr> \<lparr>chain_frequency = [([0::nat], [(3::nat, 1)]), ([3], [(2, 1)])]\<rparr>)) [3]
   \<and> has_entry (chain_frequency (merge_grams \<lparr>chain_frequency = [([0::nat], [(1::nat, 1)]), ([1], [(2, 1)])]\<rparr> \<lparr>chain_frequency = [([0::nat], [(3::nat, 1)]), ([3], [(2, 1)])]\<rparr>)) [0] 3
   \<and> get_count (chain_frequency (merge_grams \<lparr>chain_frequency = [([0::nat], [(1::nat, 1)]), ([1], [(2, 1)])]\<rparr> \<lparr>chain_frequency = [([0::nat], [(3::nat, 1)]), ([3], [(2, 1)])]\<rparr>)) [0] 3 = 1"
  using merge_grams_sums [of "\<lparr>chain_frequency = [([0::nat], [(3::nat, 1)]), ([3], [(2, 1)])]\<rparr>" "\<lparr>chain_frequency = [([0::nat], [(1::nat, 1)]), ([1], [(2, 1)])]\<rparr>" "[0]" 3]
    merge_grams_sums [of "\<lparr>chain_frequency = [([0::nat], [(3::nat, 1)]), ([3], [(2, 1)])]\<rparr>" "\<lparr>chain_frequency = [([0::nat], [(1::nat, 1)]), ([1], [(2, 1)])]\<rparr>" "[3]" 3]
  by (simp add: wf_gram_def wf_table_def wf_dict_def has_context_def has_entry_def get_count_def)

text \<open>
  C4: on three separate objects \<open>A\<close>, \<open>B\<close>, \<open>C\<close> of a store, that is three
  different objects with distinct keys that share no inner dictionary, the merge is
  associative and commutative up to content equality: \<open>merge(merge(A, B), C)\<close>,
  \<open>merge(A, merge(B, C))\<close> and \<open>merge(merge(B, A), C)\<close>, each run on that store,
  return the same contents.
\<close>

theorem merge_store_assoc_commute:
  assumes "separate h [A, B, C]"
  shows "content (merge_left A B C h) = content (merge_right A B C h)
       \<and> content (merge_right A B C h) = content (merge_left B A C h)"
proof -
  from assms have wf: "wf_table (contents h A)" "wf_table (contents h B)" "wf_table (contents h C)"
    by (simp_all add: separate_wf)
  from assms have "distinct [B, A, C]" by (auto simp: separate_def)
  with assms have sep': "separate h [B, A, C]"
    by (rule separate_subset) auto
  have l: "content (merge_left A B C h)
             = add_tab (add_tab (content (contents h A)) (content (contents h B)))
                 (content (contents h C))"
    using wf by (simp add: merge_left_value [OF assms] content_merge_items)
  have r: "content (merge_right A B C h)
             = add_tab (content (contents h A))
                 (add_tab (content (contents h B)) (content (contents h C)))"
    using wf by (simp add: merge_right_value [OF assms] content_merge_items wf_table_merge_items)
  have l': "content (merge_left B A C h)
             = add_tab (add_tab (content (contents h B)) (content (contents h A)))
                 (content (contents h C))"
    using wf by (simp add: merge_left_value [OF sep'] content_merge_items)
  show ?thesis
    by (simp add: l r l' add_tab_assoc
        add_tab_commute [of "content (contents h B)" "content (contents h A)"])
qed

theorem merge_store_assoc_commute_witness:
  "separate example_store3 [0, 1, 2]
   \<and> content (merge_left 0 1 2 example_store3) = content (merge_right 0 1 2 example_store3)
   \<and> content (merge_right 0 1 2 example_store3) = content (merge_left 1 0 2 example_store3)"
  using merge_store_assoc_commute [of example_store3 0 1 2]
  by (simp add: store_eval)

text \<open>
  C4, as stated for all tables, fails when one object is used twice: with \<open>C\<close> the
  object \<open>A\<close>, \<open>merge(merge(A, B), A)\<close> returns twice the sum of \<open>A\<close> and \<open>B\<close>,
  since the first call has changed \<open>A\<close>, and \<open>merge(A, merge(B, A))\<close> returns twice
  \<open>A\<close> plus \<open>B\<close>.
\<close>

theorem merge_store_shared_operand:
  "merge_left 0 1 0 example_store
     = [([0], [(1, 2), (3, 2)]), ([1], [(2, 2)]), ([3], [(2, 2)])]
   \<and> merge_right 0 1 0 example_store
     = [([0], [(1, 2), (3, 1)]), ([1], [(2, 2)]), ([3], [(2, 1)])]
   \<and> content (merge_left 0 1 0 example_store) \<noteq> content (merge_right 0 1 0 example_store)"
proof -
  have l: "merge_left 0 1 0 example_store
     = [([0], [(1, 2), (3, 2)]), ([1], [(2, 2)]), ([3], [(2, 2)])]"
    by (simp add: store_eval)
  have r: "merge_right 0 1 0 example_store
     = [([0], [(1, 2), (3, 1)]), ([1], [(2, 2)]), ([3], [(2, 1)])]"
    by (simp add: store_eval)
  have g: "get_count (merge_left 0 1 0 example_store) [3] 2 = 2"
    "get_count (merge_right 0 1 0 example_store) [3] 2 = 1"
    unfolding l r by (simp_all add: get_count_def)
  have "content (merge_left 0 1 0 example_store) \<noteq> content (merge_right 0 1 0 example_store)"
  proof
    assume "content (merge_left 0 1 0 example_store) = content (merge_right 0 1 0 example_store)"
    then have "get_count (merge_left 0 1 0 example_store) [3] 2
                 = get_count (merge_right 0 1 0 example_store) [3] 2"
      by (simp only: get_count_content)
    with g show False by simp
  qed
  with l r show ?thesis by simp
qed

text \<open>
  C8: the merge is not idempotent. A table with distinct keys that holds a count other
  than 0 is not content-equal to its merge with itself, in which every count is doubled.
\<close>

theorem merge_grams_not_idempotent:
  assumes "wf_gram T" and "get_count (chain_frequency T) k x \<noteq> 0"
  shows "\<not> content_eq (merge_grams T T) T
       \<and> (\<forall>k' x'. get_count (chain_frequency (merge_grams T T)) k' x'
                     = 2 * get_count (chain_frequency T) k' x')"
proof -
  have dbl: "get_count (chain_frequency (merge_grams T T)) k' x'
                     = 2 * get_count (chain_frequency T) k' x'" for k' x'
    using assms(1) by (simp add: wf_gram_def merge_grams_def get_count_merge_items)
  have "\<not> content_eq (merge_grams T T) T"
  proof
    assume "content_eq (merge_grams T T) T"
    then have "get_count (chain_frequency (merge_grams T T)) k x = get_count (chain_frequency T) k x"
      by (simp add: content_eq_def get_count_content)
    with dbl [of k x] assms(2) show False by simp
  qed
  with dbl show ?thesis by simp
qed

theorem merge_grams_not_idempotent_witness:
  "wf_gram \<lparr>chain_frequency = [([0::nat], [(1::nat, 1)]), ([1], [(2, 1)])]\<rparr> \<and> get_count (chain_frequency \<lparr>chain_frequency = [([0::nat], [(1::nat, 1)]), ([1], [(2, 1)])]\<rparr>) [0] 1 \<noteq> 0
   \<and> \<not> content_eq (merge_grams \<lparr>chain_frequency = [([0::nat], [(1::nat, 1)]), ([1], [(2, 1)])]\<rparr> \<lparr>chain_frequency = [([0::nat], [(1::nat, 1)]), ([1], [(2, 1)])]\<rparr>) \<lparr>chain_frequency = [([0::nat], [(1::nat, 1)]), ([1], [(2, 1)])]\<rparr>
   \<and> get_count (chain_frequency (merge_grams \<lparr>chain_frequency = [([0::nat], [(1::nat, 1)]), ([1], [(2, 1)])]\<rparr> \<lparr>chain_frequency = [([0::nat], [(1::nat, 1)]), ([1], [(2, 1)])]\<rparr>)) [1] 2 = 2"
  using merge_grams_not_idempotent [of "\<lparr>chain_frequency = [([0::nat], [(1::nat, 1)]), ([1], [(2, 1)])]\<rparr>" "[0]" 1]
  by (simp add: wf_gram_def wf_table_def wf_dict_def get_count_def)

text \<open>
  C10: a new, empty model is a left identity of the merge up to content equality, for
  every table \<open>B\<close> with distinct keys; the fold of \<open>main\<close>, which starts from a new
  model, therefore gives the contents of \<open>B\<close> on the single partial model \<open>B\<close>.
\<close>

theorem merge_grams_empty_left:
  assumes "wf_gram B"
  shows "content_eq (merge_grams Ngram_new B) B \<and> content_eq (linear_fold [B]) B"
  using assms
  by (simp add: content_eq_def content_merge_grams linear_fold_def content_Ngram_new
      add_tab_empty_left)

theorem merge_grams_empty_left_witness:
  "wf_gram \<lparr>chain_frequency = [([0::nat], [(3::nat, 1)]), ([3], [(2, 1)])]\<rparr> \<and> content_eq (merge_grams Ngram_new \<lparr>chain_frequency = [([0::nat], [(3::nat, 1)]), ([3], [(2, 1)])]\<rparr>) \<lparr>chain_frequency = [([0::nat], [(3::nat, 1)]), ([3], [(2, 1)])]\<rparr> \<and> content_eq (linear_fold [\<lparr>chain_frequency = [([0::nat], [(3::nat, 1)]), ([3], [(2, 1)])]\<rparr>]) \<lparr>chain_frequency = [([0::nat], [(3::nat, 1)]), ([3], [(2, 1)])]\<rparr>"
  using merge_grams_empty_left [of "\<lparr>chain_frequency = [([0::nat], [(3::nat, 1)]), ([3], [(2, 1)])]\<rparr>"]
  by (simp add: wf_gram_def wf_table_def wf_dict_def)

text \<open>
  C5: on a non-empty list of separate objects of a store, \<open>merge_models_incrementally\<close>
  returns a model, and its contents are those that the fold of \<open>merge_grams\<close> from left
  to right returns, which \<open>main\<close> performs from a new, empty model; both are run on that
  store.
\<close>

theorem tree_reduction_store_refines_fold:
  assumes "models_to_merge \<noteq> []" and "separate h models_to_merge"
    and "\<forall>g\<in>set models_to_merge. g < next_obj h"
  shows "\<exists>t. tree_contents models_to_merge h = Inr t
             \<and> content t = content (fold_contents models_to_merge h)"
proof -
  from merge_models_incrementally_separate [OF assms(2) assms(1)]
  obtain r h' where t: "merge_models_incrementally models_to_merge h = Inr (r, h')"
    and ct: "content (contents h' r) = content_sum h models_to_merge"
    by blast
  let ?n = "next_obj h"
  let ?h1 = "snd (Ngram_store h)"
  note a = Ngram_store_separate [OF assms(2) assms(3)]
  from a have sep: "separate ?h1 (?n # models_to_merge)" by simp
  from a have cs: "content_sum ?h1 models_to_merge = content_sum h models_to_merge"
    by (auto intro: content_sum_cong)
  from a have e: "content (contents ?h1 ?n) = (\<lambda>k. None)" by (simp add: content_def)
  from a have f: "fst (Ngram_store h) = ?n" by simp
  note fm = fold_merge_separate [OF sep]
  have "content (fold_contents models_to_merge h) = content_sum h models_to_merge"
    using fm by (simp add: fold_contents_def linear_fold_store_def split_beta f e cs
        add_tab_empty_left)
  with t ct show ?thesis by (simp add: tree_contents_def)
qed

theorem tree_reduction_store_refines_fold_witness:
  "[0, 1, 2] \<noteq> [] \<and> separate example_store3 [0, 1, 2]
   \<and> 0 < next_obj example_store3 \<and> 1 < next_obj example_store3
   \<and> 2 < next_obj example_store3
   \<and> (\<exists>t. tree_contents [0, 1, 2] example_store3 = Inr t
            \<and> content t = content (fold_contents [0, 1, 2] example_store3))"
  using tree_reduction_store_refines_fold [of "[0, 1, 2]" example_store3]
  by (simp add: store_eval)

text \<open>
  C5, as stated for every non-empty list, fails on a list that holds one object twice: on
  \<open>[A, B, A]\<close> the first round of the tree merges \<open>B\<close> into \<open>A\<close> and the second
  merges the changed \<open>A\<close> with itself, which counts \<open>B\<close> twice; the fold counts the
  context that only \<open>B\<close> has once.
\<close>

theorem tree_reduction_shared_object:
  "tree_contents [0, 1, 0] example_store
     = Inr [([0], [(1, 2), (3, 2)]), ([1], [(2, 2)]), ([3], [(2, 2)])]
   \<and> fold_contents [0, 1, 0] example_store
     = [([0], [(1, 2), (3, 2)]), ([1], [(2, 2)]), ([3], [(2, 1)])]
   \<and> content [([0::nat], [(1::nat, 2), (3, 2)]), ([1], [(2, 2)]), ([3], [(2, 2)])]
       \<noteq> content (fold_contents [0, 1, 0] example_store)"
proof -
  have t: "tree_contents [0, 1, 0] example_store
     = Inr [([0], [(1, 2), (3, 2)]), ([1], [(2, 2)]), ([3], [(2, 2)])]"
    by (simp add: tree_eval store_eval)
  have f: "fold_contents [0, 1, 0] example_store
     = [([0], [(1, 2), (3, 2)]), ([1], [(2, 2)]), ([3], [(2, 1)])]"
    by (simp add: tree_eval store_eval)
  have g: "get_count [([0::nat], [(1::nat, 2), (3, 2)]), ([1], [(2, 2)]), ([3], [(2, 2)])] [3] 2 = 2"
    "get_count (fold_contents [0, 1, 0] example_store) [3] 2 = 1"
    unfolding f by (simp_all add: get_count_def)
  have "content [([0::nat], [(1::nat, 2), (3, 2)]), ([1], [(2, 2)]), ([3], [(2, 2)])]
       \<noteq> content (fold_contents [0, 1, 0] example_store)"
  proof
    assume "content [([0::nat], [(1::nat, 2), (3, 2)]), ([1], [(2, 2)]), ([3], [(2, 2)])]
       = content (fold_contents [0, 1, 0] example_store)"
    then have "get_count [([0::nat], [(1::nat, 2), (3, 2)]), ([1], [(2, 2)]), ([3], [(2, 2)])] [3] 2
                 = get_count (fold_contents [0, 1, 0] example_store) [3] 2"
      by (simp only: get_count_content)
    with g show False by simp
  qed
  with t f show ?thesis by simp
qed

section \<open>The claim about preprocessing\<close>

text \<open>
  C9: \<open>preprocessing\<close> returns its argument without the whitespace at its two ends
  and with every newline replaced by one space, in whichever order the two are done: the
  result has no whitespace at its ends and no newline, and what \<open>strip\<close> keeps is the
  argument between a whitespace prefix and a whitespace suffix. Whitespace inside is
  kept and not collapsed, as the two spaces of \<open>a  b\<close> show, which the dropped join of the
  split would make one. \<open>main\<close> applies it to every document before anything else: the
  name \<open>data\<close> holds the preprocessed documents, from which the vocabulary is built when
  no file holds one, and which every way of training reads.
\<close>

theorem preprocessing_strips_and_replaces:
  "preprocessing t = replace 10 32 (strip t)
   \<and> preprocessing t = strip (replace 10 32 t)
   \<and> (\<exists>a b. t = a @ strip t @ b \<and> list_all isspace a \<and> list_all isspace b)
   \<and> strip (preprocessing t) = preprocessing t
   \<and> 10 \<notin> set (preprocessing t)
   \<and> preprocessing (map of_char ''a  b'') = map of_char ''a  b''
   \<and> join [32] (split (map of_char ''a  b'')) = map of_char ''a b''
   \<and> data (startup M cfg docs st) = Some (map preprocessing docs)
   \<and> (vocab_file st = None \<longrightarrow>
        vocab (startup M cfg docs st)
          = Some (foldl (Vocabulary_update M) (Vocabulary_new M) (map preprocessing docs)))
   \<and> (\<not> dask_distributed cfg \<longrightarrow>
        dispatch M cfg n (startup M cfg docs st)
          = run_tasks M n (map preprocessing docs) (startup M cfg docs st))
   \<and> (dask_distributed cfg \<longrightarrow>
        dask_results (startup M cfg docs st) (map preprocessing docs)
          = Inr (map (\<lambda>doc. [PStr doc, PVocab (the (vocab (startup M cfg docs st)))])
                   (map preprocessing docs)))"
proof -
  have 1: "preprocessing t = replace 10 32 (strip t)" by (rule preprocessing_eq)
  have 2: "preprocessing t = strip (replace 10 32 t)" by (simp add: 1 strip_replace)
  have 3: "strip (preprocessing t) = preprocessing t"
    by (simp add: 1 strip_replace strip_idem)
  have 4: "10 \<notin> set (preprocessing t)" by (auto simp: 1 replace_def)
  have 5: "preprocessing (map of_char ''a  b'') = map of_char ''a  b''"
    by (simp add: preprocessing_def Let_def strip_def lstrip_def replace_def isspace_def)
  have 6: "join [32] (split (map of_char ''a  b'')) = map of_char ''a b''"
    by (simp add: split_def isspace_def)
  have 7: "vocab_file st = None \<longrightarrow>
        vocab (startup M cfg docs st)
          = Some (foldl (Vocabulary_update M) (Vocabulary_new M) (map preprocessing docs))"
    by (simp add: startup_vocab)
  have 8: "\<not> dask_distributed cfg \<longrightarrow>
        dispatch M cfg n (startup M cfg docs st)
          = run_tasks M n (map preprocessing docs) (startup M cfg docs st)"
    by (simp add: dispatch_local startup_data)
  have 9: "dask_distributed cfg \<longrightarrow>
        dask_results (startup M cfg docs st) (map preprocessing docs)
          = Inr (map (\<lambda>doc. [PStr doc, PVocab (the (vocab (startup M cfg docs st)))])
                   (map preprocessing docs))"
    by (simp add: dask_results_def startup_def Let_def split_beta)
  from 1 2 strip_parts [of t] 3 4 5 6 startup_data [of M cfg docs st] 7 8 9
  show ?thesis by blast
qed

theorem preprocessing_strips_and_replaces_witness:
  "vocab_file fresh_state = None \<and> \<not> dask_distributed (local_config 2 2)
   \<and> dask_distributed (dask_config 2 2)
   \<and> preprocessing [32, 10, 97, 10, 9, 98, 32, 13, 10] = [97, 32, 9, 98]
   \<and> data (startup spec_modules (local_config 2 2) [[32, 10, 97, 10, 9, 98, 32, 13, 10]] fresh_state)
       = Some [[97, 32, 9, 98]]
   \<and> vocab (startup spec_modules (local_config 2 2) [[32, 10, 97, 10, 9, 98, 32, 13, 10]] fresh_state)
       = Some [([97], 0), ([98], 1)]"
proof -
  have 1: "vocab_file fresh_state = None" by (simp add: fresh_state_def)
  have 2: "\<not> dask_distributed (local_config 2 2)" by (simp add: local_config_def)
  have 3: "dask_distributed (dask_config 2 2)" by (simp add: dask_config_def)
  have 4: "replace 10 32 (strip [32, 10, 97, 10, 9, 98, 32, 13, 10]) = [97, 32, 9, 98]"
    by (simp add: strip_def lstrip_def replace_def isspace_def)
  have 5: "foldl (Vocabulary_update spec_modules) (Vocabulary_new spec_modules) [[97, 32, 9, 98]]
             = [([97], 0), ([98], 1)]"
    by (simp add: spec_modules_def spec_update_def split_def isspace_def)
  from preprocessing_strips_and_replaces [of "[32, 10, 97, 10, 9, 98, 32, 13, 10]"
      spec_modules "local_config 2 2" "[[32, 10, 97, 10, 9, 98, 32, 13, 10]]" fresh_state 2]
    preprocessing_strips_and_replaces [of "[32, 10, 97, 10, 9, 98, 32, 13, 10]"
      spec_modules "dask_config 2 2" "[[32, 10, 97, 10, 9, 98, 32, 13, 10]]" fresh_state 2]
    1 2 3 4 5
  show ?thesis by simp
qed

section \<open>The claims about the training run\<close>

text \<open>
  C1: the loop body of \<open>main\<close> ends its training pass with \<open>del vocab\<close> and
  \<open>del data\<close>, so a run over more than one order never completes: it ends with an
  exception and writes no model for any order after the first. When the pass of the first
  order completes, the exception is the \<open>UnboundLocalError\<close> of the name \<open>data\<close>,
  raised when the second order starts to train.
\<close>

theorem second_order_unbound:
  assumes "ngram_range_min cfg < ngram_range_max cfg"
  shows "fst (main M cfg docs st) \<noteq> None
       \<and> (\<forall>n. ngram_range_min cfg < n \<longrightarrow> models (snd (main M cfg docs st)) n = models st n)
       \<and> (fst (run_order M cfg (ngram_range_min cfg) (startup M cfg docs st)) = None
            \<longrightarrow> fst (main M cfg docs st) = Some (UnboundLocalError ''data''))"
proof -
  let ?lo = "ngram_range_min cfg"
  let ?st0 = "startup M cfg docs st"
  from assms have orders:
    "[?lo..ngram_range_max cfg] = ?lo # (?lo + 1) # [?lo + 2..ngram_range_max cfg]"
    by (simp add: upto_rec1 add.commute)
  obtain r st1 where ro: "run_order M cfg ?lo ?st0 = (r, st1)"
    by (cases "run_order M cfg ?lo ?st0")
  have m1: "models st1 n = models st n" if "?lo < n" for n
    using run_order_models [of n ?lo M cfg ?st0] that by (simp add: ro startup_models)
  show ?thesis
  proof (cases r)
    case (Some e)
    then have "main M cfg docs st = (Some e, st1)"
      by (simp add: main_def orders ro and_then_def)
    with Some ro m1 show ?thesis by simp
  next
    case None
    with ro have "data st1 = None" by (simp add: run_order_done)
    then have "run_order M cfg (?lo + 1) st1 = (Some (UnboundLocalError ''data''), st1\<lparr>temp := []\<rparr>)"
      by (rule run_order_unbound)
    with None have "main M cfg docs st = (Some (UnboundLocalError ''data''), st1\<lparr>temp := []\<rparr>)"
      by (simp add: main_def orders ro and_then_def)
    with m1 show ?thesis by simp
  qed
qed

theorem second_order_unbound_witness:
  "ngram_range_min (local_config 1 2) < ngram_range_max (local_config 1 2)
   \<and> fst (run_order spec_modules (local_config 1 2) 1
            (startup spec_modules (local_config 1 2) example_docs fresh_state)) = None
   \<and> fst (main spec_modules (local_config 1 2) example_docs fresh_state)
       = Some (UnboundLocalError ''data'')
   \<and> models (snd (main spec_modules (local_config 1 2) example_docs fresh_state)) 2 = None"
proof -
  have 1: "ngram_range_min (local_config 1 2) < ngram_range_max (local_config 1 2)"
    by (simp add: local_config_def)
  have 2: "fst (run_order spec_modules (local_config 1 2) 1
            (startup spec_modules (local_config 1 2) example_docs fresh_state)) = None"
    by (simp add: eval_defs)
  have 3: "models fresh_state 2 = None" by (simp add: fresh_state_def)
  from second_order_unbound [OF 1, of spec_modules example_docs fresh_state] 1 2 3
  show ?thesis by (simp add: local_config_def)
qed


text \<open>
  C2: on the Dask cluster \<open>main\<close> calls \<open>train_ngram\<close> with two arguments, the text
  and the vocabulary, and without the order. Every such call raises \<open>TypeError\<close> and
  stages nothing, so the dispatch leaves the staging directory as it was; on the local
  machine the call has the three arguments.
\<close>

theorem dask_call_misses_order:
  assumes "dask_distributed cfg" and "data st = Some ds" and "distributed_vocab st = Some dv"
  shows "dask_results st ds = Inr (map (\<lambda>doc. [PStr doc, PVocab dv]) ds)
       \<and> run_futures M (map (\<lambda>doc. [PStr doc, PVocab dv]) ds) st
           = (map (\<lambda>doc. Some TypeError) ds, st)
       \<and> dispatch M cfg n st = (None, st)"
  using assms
  by (simp add: dask_results_def run_futures_two_args dispatch_def)

theorem dask_call_misses_order_witness:
  "dask_distributed (dask_config 2 2)
   \<and> data (startup spec_modules (dask_config 2 2) example_docs fresh_state)
       = Some (map preprocessing example_docs)
   \<and> distributed_vocab (startup spec_modules (dask_config 2 2) example_docs fresh_state)
       = vocab (startup spec_modules (dask_config 2 2) example_docs fresh_state)
   \<and> fst (run_futures spec_modules
            (map (\<lambda>doc. [PStr doc, PVocab (the (vocab
               (startup spec_modules (dask_config 2 2) example_docs fresh_state)))])
               (map preprocessing example_docs))
            (startup spec_modules (dask_config 2 2) example_docs fresh_state))
       = [Some TypeError, Some TypeError]
   \<and> temp (snd (dispatch spec_modules (dask_config 2 2) 2
            (startup spec_modules (dask_config 2 2) example_docs fresh_state))) = []"
proof -
  let ?st = "startup spec_modules (dask_config 2 2) example_docs fresh_state"
  let ?v = "the (vocab ?st)"
  have 1: "dask_distributed (dask_config 2 2)" by (simp add: dask_config_def)
  have 2: "data ?st = Some (map preprocessing example_docs)"
    by (simp add: startup_def Let_def split_beta)
  have 3: "distributed_vocab ?st = Some ?v"
    by (simp add: startup_def Let_def split_beta dask_config_def)
  have 4: "vocab ?st = Some ?v"
    by (simp add: startup_def Let_def split_beta)
  have 5: "temp ?st = []"
    by (simp add: startup_def Let_def split_beta load_or_create_vocabulary_def fresh_state_def)
  have 6: "length (map preprocessing example_docs) = 2" by (simp add: example_docs_def)
  from dask_call_misses_order [OF 1 2 3, of spec_modules 2] 1 2 3 4 5
  show ?thesis by (simp add: example_docs_def)
qed

text \<open>
  C6: on the Dask cluster the failure of the tasks does not reach \<open>main\<close>. With at
  least one document every task fails, and still the pass of the order ends without an
  exception and saves a model for the order, the empty one.
\<close>

theorem dask_failure_not_seen:
  assumes "dask_distributed cfg" and "data st = Some ds" and "ds \<noteq> []"
    and "vocab st = Some v" and "distributed_vocab st = Some dv"
  shows "fst (run_futures M (map (\<lambda>doc. [PStr doc, PVocab dv]) ds) (st\<lparr>temp := []\<rparr>))
           = map (\<lambda>doc. Some TypeError) ds
       \<and> fst (run_order M cfg n st) = None
       \<and> models (snd (run_order M cfg n st)) n = Some []"
proof -
  have d: "dispatch M cfg n (st\<lparr>temp := []\<rparr>) = (None, st\<lparr>temp := []\<rparr>)"
    using assms by (simp add: dask_results_def run_futures_two_args dispatch_def)
  show ?thesis
    using assms
    by (simp add: run_futures_two_args run_order_unfold d Ngram_new_def)
qed

theorem dask_failure_not_seen_witness:
  "dask_distributed (dask_config 2 2)
   \<and> data (startup spec_modules (dask_config 2 2) example_docs fresh_state)
       = Some (map preprocessing example_docs)
   \<and> map preprocessing example_docs \<noteq> []
   \<and> fst (main spec_modules (dask_config 2 2) example_docs fresh_state) = None
   \<and> models (snd (main spec_modules (dask_config 2 2) example_docs fresh_state)) 2 = Some []"
proof -
  let ?st = "startup spec_modules (dask_config 2 2) example_docs fresh_state"
  let ?v = "the (vocab ?st)"
  have 1: "dask_distributed (dask_config 2 2)" by (simp add: dask_config_def)
  have 2: "data ?st = Some (map preprocessing example_docs)"
    by (simp add: startup_def Let_def split_beta)
  have 3: "map preprocessing example_docs \<noteq> []" by (simp add: example_docs_def)
  have 4: "vocab ?st = Some ?v"
    by (simp add: startup_def Let_def split_beta)
  have 5: "distributed_vocab ?st = Some ?v"
    by (simp add: startup_def Let_def split_beta dask_config_def)
  have m: "main spec_modules (dask_config 2 2) example_docs fresh_state
             = run_order spec_modules (dask_config 2 2) 2 ?st"
    by (cases "run_order spec_modules (dask_config 2 2) 2 ?st")
       (simp add: main_def dask_config_def upto_rec1 and_then_def split: option.splits)
  from dask_failure_not_seen [OF 1 2 3 4 5, of spec_modules 2] 1 2 3
  show ?thesis by (simp add: m)
qed



end
